theory Spec2Isabelle
  imports Complex_Main
begin

section \<open>The thread pool of \<^verbatim>\<open>include/thread_pool.hpp\<close>\<close>

text \<open>
  The class \<^verbatim>\<open>ThreadPool\<close> owns a vector of worker threads, a queue of type-erased tasks,
  a mutex, a stop flag and a condition variable. The embedding is an interleaving
  semantics: the state of the whole process (the members of the pool, the control point
  of every thread that touches it and the shared states of the futures handed out) is a
  record, and every atomic action of a thread is one event of a step function.

  Every block of the source that runs with \<^verbatim>\<open>queue_mutex_\<close> held (lines 67 to 70, 90 to
  93 and 104 to 112) is one event: the mutex makes it indivisible for every other
  access to \<^verbatim>\<open>tasks_\<close> and \<^verbatim>\<open>stop_\<close>. The wait of line 106 gives the mutex up while the
  worker is blocked, so the block of the worker is entered anew after every wake-up.
  The calls made without the mutex (\<^verbatim>\<open>notify_one\<close> of line 94, \<^verbatim>\<open>notify_all\<close> of line 71,
  \<^verbatim>\<open>join\<close> of line 74 and \<^verbatim>\<open>task()\<close> of line 113) are events of their own, so that any
  other thread may run between them and the block before.

  What the model leaves out. A callable is a total function of its arguments (an
  argument given as a \<^verbatim>\<open>std::reference_wrapper\<close> being the object referred to, as it is
  when the task is invoked): it returns a value or throws, and neither runs forever nor
  waits for another task. The
  life of the pool is followed from the end of the constructor to the return of the
  destructor's body; the destruction of the members after it (which drops the tasks that
  are still in the queue) is not part of it. Running out of memory or of threads is not
  modelled.
\<close>

subsection \<open>Data\<close>

text \<open>
  A task is the closure \<^verbatim>\<open>[task]() { (*task)(); }\<close> of line 92: a shared pointer to a
  \<^verbatim>\<open>std::packaged_task\<close>. The packaged task has a shared state (the one its future reads),
  named here by the number of the allocation, and the call wrapper that \<^verbatim>\<open>std::bind\<close> made.
  An invocation of the wrapper either returns a value (\<open>Inr\<close>) or throws (\<open>Inl\<close>). The
  wrapper passes its stored copies of the arguments to the callable, and where the
  stored copy is a \<^verbatim>\<open>std::reference_wrapper\<close> it passes the object referred to, as it is
  when the wrapper is invoked: the outcome is a function of the memory of the process
  at the invocation.
\<close>

datatype ('m, 'e, 'v) task = Task (shared_state: nat) (bound: "'m \<Rightarrow> 'e + 'v")

text \<open>
  The control point of a worker thread inside \<^verbatim>\<open>workerThread\<close>:
  \<^item> \<open>Ready\<close>: at the top of the loop, about to lock the mutex (line 105);
  \<^item> \<open>Waiting\<close>: blocked in \<^verbatim>\<open>status_update_.wait\<close> (line 106), the mutex released;
  \<^item> \<open>Woken\<close>: unblocked (by a notification or spuriously), about to lock the mutex again
    and to evaluate the predicate of the wait;
  \<^item> \<open>Running t\<close>: the block was left with the task \<open>t\<close> moved out of the queue, line 113
    is next;
  \<^item> \<open>Terminated\<close>: the \<^verbatim>\<open>return\<close> of line 108 was taken;
  \<^item> \<open>Crashed\<close>: an exception left \<^verbatim>\<open>task()\<close>, which ends the thread function with
    \<^verbatim>\<open>std::terminate\<close>.
\<close>

datatype ('m, 'e, 'v) worker =
    Ready | Waiting | Woken | is_Running: Running "('m, 'e, 'v) task" | Terminated | Crashed

text \<open>
  The control point of the thread that runs the destructor: not called yet, between the
  block that sets the flag and \<^verbatim>\<open>notify_all\<close>, or in the loop of line 72 at the worker of
  the given index. The destructor has returned when the index is the number of workers.
\<close>

datatype dtor_pc = Alive | Stopping | Joining nat

text \<open>
  The errors with which the constructor and \<^verbatim>\<open>submit\<close> could end. The source raises
  neither of them; the type makes "the constructor fails" and "\<^verbatim>\<open>submit\<close> rejects"
  statements about the result of an operation.
\<close>

datatype error = ConfigurationError | PoolShutdownError

text \<open>
  The members \<^verbatim>\<open>workers_\<close>, \<^verbatim>\<open>tasks_\<close> (front of the queue first) and \<^verbatim>\<open>stop_\<close>; the shared
  states of the packaged tasks (\<open>None\<close>: not ready) with the allocation counter; the
  number of callers of \<^verbatim>\<open>submit\<close> that have left the block of line 90 and have not
  called \<^verbatim>\<open>notify_one\<close> yet; the destructor's control point. The last two fields are
  history variables that no operation reads: the pairs (worker, shared state) in the
  order in which tasks were moved out of the queue, and in the order in which they
  were invoked.
\<close>

record ('m, 'e, 'v) pool =
  workers :: "('m, 'e, 'v) worker list"
  tasks :: "('m, 'e, 'v) task list"
  stop :: bool
  futures :: "nat \<Rightarrow> ('e + 'v) option"
  next_future :: nat
  notifying :: nat
  dtor :: dtor_pc
  claimed :: "(nat \<times> nat) list"
  executed :: "(nat \<times> nat) list"

subsection \<open>Construction\<close>

text \<open>
  The loop of the constructor, \<^verbatim>\<open>for (int i = 0; i < num_threads; ++i)\<close>, with the vector
  built so far. A thread that was started is at the top of its loop. (\<open>i\<close> never
  exceeds \<open>num_threads\<close>, so the increment does not overflow.)
\<close>

function spawn :: "int \<Rightarrow> int \<Rightarrow> ('m, 'e, 'v) worker list \<Rightarrow> ('m, 'e, 'v) worker list" where
  "spawn i num_threads ws =
     (if i < num_threads then spawn (i + 1) num_threads (ws @ [Ready]) else ws)"
  by pat_completeness auto
termination
  by (relation "measure (\<lambda>(i, num_threads, ws). nat (num_threads - i))") auto

declare spawn.simps [simp del]

definition ThreadPool :: "int \<Rightarrow> error + ('m, 'e, 'v) pool" where
  "ThreadPool num_threads =
     Inr \<lparr>workers = spawn 0 num_threads [], tasks = [], stop = False,
          futures = (\<lambda>h. None), next_future = 0, notifying = 0, dtor = Alive,
          claimed = [], executed = []\<rparr>"

subsection \<open>Submission\<close>

text \<open>
  Lines 83 to 93 of \<^verbatim>\<open>submit\<close>: \<^verbatim>\<open>std::bind\<close> stores copies of the callable and of the
  arguments in the call wrapper, \<^verbatim>\<open>make_shared\<close> allocates the packaged task with a fresh
  shared state, \<^verbatim>\<open>get_future\<close> gives the handle of that state, and under the mutex the
  closure is put at the back of the queue. The function returns the handle (line 95).
  The call of \<^verbatim>\<open>notify_one\<close> (line 94), made after the mutex is released, is counted in
  \<open>notifying\<close> and performed by the event \<open>NotifyOne\<close> below. No path of the function
  throws, so the result is always \<open>Inr\<close>.
\<close>

definition submit ::
    "('a \<Rightarrow> 'e + 'v) \<Rightarrow> 'a \<Rightarrow> ('m, 'e, 'v) pool \<Rightarrow> error + (nat \<times> ('m, 'e, 'v) pool)" where
  "submit f args s =
     (let result = next_future s;
          task = Task result (\<lambda>u. f args)
      in Inr (result, s\<lparr>tasks := tasks s @ [task], next_future := Suc result,
                         notifying := Suc (notifying s)\<rparr>))"

text \<open>
  The same lines for arguments given as \<^verbatim>\<open>std::ref(x)\<close>: \<^verbatim>\<open>std::bind\<close> stores the reference
  wrapper, not a copy of \<open>x\<close>, and the call wrapper passes \<open>x\<close> as it is when it is invoked.
  \<open>r\<close> reads the objects referred to in a memory.
\<close>

definition submit_ref ::
    "('a \<Rightarrow> 'e + 'v) \<Rightarrow> ('m \<Rightarrow> 'a) \<Rightarrow> ('m, 'e, 'v) pool \<Rightarrow> error + (nat \<times> ('m, 'e, 'v) pool)" where
  "submit_ref f r s =
     (let result = next_future s;
          task = Task result (\<lambda>m. f (r m))
      in Inr (result, s\<lparr>tasks := tasks s @ [task], next_future := Suc result,
                         notifying := Suc (notifying s)\<rparr>))"

text \<open>
  \<^verbatim>\<open>std::future::get\<close> on the handle \<open>h\<close>: \<open>None\<close> while the shared state is not ready
  (the caller blocks), \<open>Some (Inr v)\<close> when it returns \<open>v\<close>, \<open>Some (Inl e)\<close> when it
  rethrows the stored exception \<open>e\<close>.
\<close>

definition get :: "('m, 'e, 'v) pool \<Rightarrow> nat \<Rightarrow> ('e + 'v) option" where
  "get s h = futures s h"

subsection \<open>The condition variable\<close>

text \<open>
  \<^verbatim>\<open>notify_one\<close> unblocks one of the threads blocked on the condition variable if there
  is one; which one is the choice \<open>k\<close> of the implementation. \<^verbatim>\<open>notify_all\<close> unblocks
  all of them.
\<close>

definition notify_one :: "nat option \<Rightarrow> ('m, 'e, 'v) pool \<Rightarrow> ('m, 'e, 'v) pool option" where
  "notify_one k s =
     (case k of
        None \<Rightarrow> if Waiting \<in> set (workers s) then None else Some s
      | Some i \<Rightarrow>
          if i < length (workers s) \<and> workers s ! i = Waiting
          then Some (s\<lparr>workers := (workers s)[i := Woken]\<rparr>)
          else None)"

definition notify_all :: "('m, 'e, 'v) pool \<Rightarrow> ('m, 'e, 'v) pool" where
  "notify_all s =
     s\<lparr>workers := map (\<lambda>w. case w of Waiting \<Rightarrow> Woken | _ \<Rightarrow> w) (workers s)\<rparr>"

subsection \<open>The worker loop\<close>

text \<open>
  Lines 104 to 112 for the worker \<open>i\<close>, entered with the mutex taken: the predicate of
  the wait is evaluated; when it is false the worker blocks (and comes back here when
  it is unblocked); when it is true the worker either returns or moves the front of the
  queue into \<^verbatim>\<open>task\<close> and pops it. In the last branch the queue is not empty.
\<close>

definition workerThread_locked :: "nat \<Rightarrow> ('m, 'e, 'v) pool \<Rightarrow> ('m, 'e, 'v) pool" where
  "workerThread_locked i s =
     (if \<not> (stop s \<or> tasks s \<noteq> []) then s\<lparr>workers := (workers s)[i := Waiting]\<rparr>
      else if stop s \<and> tasks s = [] then s\<lparr>workers := (workers s)[i := Terminated]\<rparr>
      else s\<lparr>workers := (workers s)[i := Running (hd (tasks s))],
              tasks := tl (tasks s),
              claimed := claimed s @ [(i, shared_state (hd (tasks s)))]\<rparr>)"

text \<open>
  \<^verbatim>\<open>std::packaged_task::operator()\<close> in a process with the memory \<open>m\<close>: the stored wrapper
  is called and its value, or the
  exception it throws, is stored in the shared state, which becomes ready. When the
  shared state already holds a result the call throws \<^verbatim>\<open>std::future_error\<close> instead
  (\<open>None\<close>).
\<close>

definition packaged_task_call ::
    "'m \<Rightarrow> ('m, 'e, 'v) task \<Rightarrow> ('m, 'e, 'v) pool \<Rightarrow> ('m, 'e, 'v) pool option" where
  "packaged_task_call m t s =
     (case futures s (shared_state t) of
        Some r \<Rightarrow> None
      | None \<Rightarrow> Some (s\<lparr>futures := (futures s)(shared_state t \<mapsto> bound t m)\<rparr>))"

text \<open>
  Line 113 for the worker \<open>i\<close>: the closure calls the packaged task. An exception that
  leaves it ends the thread; otherwise the worker is back at the top of its loop.
\<close>

definition workerThread_task :: "'m \<Rightarrow> nat \<Rightarrow> ('m, 'e, 'v) pool \<Rightarrow> ('m, 'e, 'v) pool" where
  "workerThread_task m i s =
     (case workers s ! i of
        Running t \<Rightarrow>
          (case packaged_task_call m t s of
             None \<Rightarrow> s\<lparr>workers := (workers s)[i := Crashed]\<rparr>
           | Some s' \<Rightarrow> s'\<lparr>workers := (workers s)[i := Ready],
                           executed := executed s @ [(i, shared_state t)]\<rparr>)
      | _ \<Rightarrow> s)"

subsection \<open>Destruction\<close>

text \<open>
  Lines 67 to 70, line 71, and one round of the loop of lines 72 to 76. Every element
  of \<^verbatim>\<open>workers_\<close> was started by the constructor and is joined nowhere else, so
  \<^verbatim>\<open>joinable()\<close> is true when the loop reaches it; \<^verbatim>\<open>join\<close> returns once the thread
  function has returned.
\<close>

definition dtor_stop :: "('m, 'e, 'v) pool \<Rightarrow> ('m, 'e, 'v) pool" where
  "dtor_stop s = s\<lparr>stop := True, dtor := Stopping\<rparr>"

definition dtor_notify :: "('m, 'e, 'v) pool \<Rightarrow> ('m, 'e, 'v) pool" where
  "dtor_notify s = (notify_all s)\<lparr>dtor := Joining 0\<rparr>"

definition dtor_join :: "('m, 'e, 'v) pool \<Rightarrow> ('m, 'e, 'v) pool option" where
  "dtor_join s =
     (case dtor s of
        Joining i \<Rightarrow>
          if i < length (workers s) \<and> workers s ! i = Terminated
          then Some (s\<lparr>dtor := Joining (Suc i)\<rparr>)
          else None
      | _ \<Rightarrow> None)"

definition destroyed :: "('m, 'e, 'v) pool \<Rightarrow> bool" where
  "destroyed s = (dtor s = Joining (length (workers s)))"

subsection \<open>Interleavings\<close>

text \<open>
  The atomic actions. \<open>Submit f args\<close> is a call of \<^verbatim>\<open>submit\<close> by any thread, up to the
  release of the mutex, and \<open>NotifyOne k\<close> the \<^verbatim>\<open>notify_one\<close> of one such call. \<open>Check i\<close>
  is the locked block of the worker \<open>i\<close>, \<open>Wake i\<close> a spurious wake-up of the worker \<open>i\<close>,
  \<open>Invoke i\<close> its call \<^verbatim>\<open>task()\<close>. \<open>DtorStop\<close>, \<open>DtorNotifyAll\<close> and \<open>DtorJoin\<close> are the three
  parts of the destructor. \<open>step\<close> is \<open>None\<close> where the action cannot be taken in the
  state: the thread is not at that point, or it is blocked. A destructor runs once, and
  no member function is called on an object whose destructor has returned. \<open>m\<close> is the
  memory of the process when the action is taken; only \<open>Invoke\<close> reads it.
\<close>

datatype ('a, 'e, 'v) event =
    Submit "'a \<Rightarrow> 'e + 'v" 'a
  | NotifyOne "nat option"
  | Check nat
  | Wake nat
  | Invoke nat
  | DtorStop
  | DtorNotifyAll
  | DtorJoin

fun step_in ::
    "'m \<Rightarrow> ('a, 'e, 'v) event \<Rightarrow> ('m, 'e, 'v) pool \<Rightarrow> ('m, 'e, 'v) pool option" where
  "step_in m (Submit f args) s =
     (if destroyed s then None
      else case submit f args s of Inl e \<Rightarrow> None | Inr (h, s') \<Rightarrow> Some s')"
| "step_in m (NotifyOne k) s =
     (if notifying s = 0 then None else notify_one k (s\<lparr>notifying := notifying s - 1\<rparr>))"
| "step_in m (Check i) s =
     (if i < length (workers s) \<and> (workers s ! i = Ready \<or> workers s ! i = Woken)
      then Some (workerThread_locked i s) else None)"
| "step_in m (Wake i) s =
     (if i < length (workers s) \<and> workers s ! i = Waiting
      then Some (s\<lparr>workers := (workers s)[i := Woken]\<rparr>) else None)"
| "step_in m (Invoke i) s =
     (if i < length (workers s) \<and> is_Running (workers s ! i)
      then Some (workerThread_task m i s) else None)"
| "step_in m DtorStop s = (if dtor s = Alive then Some (dtor_stop s) else None)"
| "step_in m DtorNotifyAll s = (if dtor s = Stopping then Some (dtor_notify s) else None)"
| "step_in m DtorJoin s = dtor_join s"

text \<open>
  A process in which every argument is passed by value has no memory that a task could
  read: its memory is the one value of the type \<open>unit\<close>. \<open>step\<close> and \<open>exec\<close> are the steps
  and the runs of such a process.
\<close>

abbreviation step ::
    "('a, 'e, 'v) event \<Rightarrow> (unit, 'e, 'v) pool \<Rightarrow> (unit, 'e, 'v) pool option" where
  "step \<equiv> step_in ()"

fun exec ::
    "('a, 'e, 'v) event list \<Rightarrow> (unit, 'e, 'v) pool \<Rightarrow> (unit, 'e, 'v) pool option" where
  "exec [] s = Some s"
| "exec (ev # evs) s = (case step ev s of None \<Rightarrow> None | Some s' \<Rightarrow> exec evs s')"

subsection \<open>Callers\<close>

text \<open>
  A process with a memory \<open>m\<close> that the arguments of \<^verbatim>\<open>submit\<close> may refer to (the parameters
  of \<^verbatim>\<open>submit\<close> are forwarding references: they name objects of the caller). \<open>Assign g\<close>
  changes the memory. \<open>Call f rd\<close> is a call \<^verbatim>\<open>submit(f, x)\<close>: \<^verbatim>\<open>std::bind\<close> copies the
  object named, which \<open>rd\<close> reads in the memory as it is at the call. \<open>CallRef f r\<close> is a
  call \<^verbatim>\<open>submit(f, std::ref(x))\<close>: the wrapper reads \<open>x\<close> with \<open>r\<close> in the memory as it is
  when a worker invokes the task. (A callable that itself reads an object of the
  process when it runs, such as a lambda that captures by reference, is the same case.)
  \<open>Pool ev\<close> is an action of the interleaving above, taken in the memory as it is then.
\<close>

datatype ('m, 'a, 'e, 'v) action =
    Assign "'m \<Rightarrow> 'm"
  | Call "'a \<Rightarrow> 'e + 'v" "'m \<Rightarrow> 'a"
  | CallRef "'a \<Rightarrow> 'e + 'v" "'m \<Rightarrow> 'a"
  | Pool "('a, 'e, 'v) event"

fun perform ::
    "('m, 'a, 'e, 'v) action \<Rightarrow> 'm \<times> ('m, 'e, 'v) pool \<Rightarrow> ('m \<times> ('m, 'e, 'v) pool) option" where
  "perform (Assign g) (m, s) = Some (g m, s)"
| "perform (Call f rd) (m, s) =
     (case step_in m (Submit f (rd m)) s of None \<Rightarrow> None | Some s' \<Rightarrow> Some (m, s'))"
| "perform (CallRef f r) (m, s) =
     (if destroyed s then None
      else case submit_ref f r s of Inl e \<Rightarrow> None | Inr (h, s') \<Rightarrow> Some (m, s'))"
| "perform (Pool ev) (m, s) =
     (case step_in m ev s of None \<Rightarrow> None | Some s' \<Rightarrow> Some (m, s'))"

fun run ::
    "('m, 'a, 'e, 'v) action list \<Rightarrow> 'm \<times> ('m, 'e, 'v) pool \<Rightarrow>
     ('m \<times> ('m, 'e, 'v) pool) option" where
  "run [] c = Some c"
| "run (a # as) c = (case perform a c of None \<Rightarrow> None | Some c' \<Rightarrow> run as c')"

subsection \<open>Observations on a run\<close>

text \<open>
  How often the task with the shared state \<open>h\<close> was invoked, and how often it was moved
  out of the queue.
\<close>

definition invocations :: "('m, 'e, 'v) pool \<Rightarrow> nat \<Rightarrow> nat" where
  "invocations s h = count_list (map snd (executed s)) h"

definition dequeues :: "('m, 'e, 'v) pool \<Rightarrow> nat \<Rightarrow> nat" where
  "dequeues s h = count_list (map snd (claimed s)) h"

text \<open>
  When the destructor has returned, the members of the pool are destroyed, and with
  \<^verbatim>\<open>tasks_\<close> the closures still in the queue. Each of them holds the last pointer to its
  packaged task (the pointer of \<^verbatim>\<open>submit\<close> is gone when the call has returned), so the
  packaged task is destroyed without having been invoked and its shared state is
  abandoned: \<^verbatim>\<open>get()\<close> on its future does not block any more but throws
  \<^verbatim>\<open>std::future_error\<close> (broken promise). No invocation has stored a result in such a
  shared state, and none will.
\<close>

definition abandoned :: "('m, 'e, 'v) pool \<Rightarrow> nat \<Rightarrow> bool" where
  "abandoned s h \<longleftrightarrow> destroyed s \<and> h \<in> shared_state ` set (tasks s)"

text \<open>
  The number of tasks submitted before the destructor sets the stop flag: the shared
  states below this number belong to them, since shared states are numbered in the order
  of submission.
\<close>

fun pre_stop :: "('a, 'e, 'v) event list \<Rightarrow> nat" where
  "pre_stop [] = 0"
| "pre_stop (Submit f args # evs) = Suc (pre_stop evs)"
| "pre_stop (DtorStop # evs) = 0"
| "pre_stop (ev # evs) = pre_stop evs"

text \<open>
  The actions the threads of the pool and the callers already inside the pool take on
  their own, as opposed to the decisions of the environment: a new call of \<^verbatim>\<open>submit\<close>,
  the call of the destructor, and a spurious wake-up. A state is quiescent when no
  action of the first kind can be taken: every worker is blocked or gone, no
  \<^verbatim>\<open>notify_one\<close> is outstanding and the destructor is not in progress.
\<close>

fun internal :: "('a, 'e, 'v) event \<Rightarrow> bool" where
  "internal (Submit f args) = False"
| "internal (Wake i) = False"
| "internal DtorStop = False"
| "internal ev = True"

definition quiescent :: "('m, 'e, 'v) pool \<Rightarrow> bool" where
  "quiescent s \<longleftrightarrow>
     notifying s = 0 \<and>
     list_all (\<lambda>w. w = Waiting \<or> w = Terminated \<or> w = Crashed) (workers s) \<and>
     dtor s \<noteq> Stopping \<and> dtor_join s = None"

text \<open>
  A bound on the number of internal actions that can still be taken: each of them
  makes it smaller.
\<close>

fun weight :: "('m, 'e, 'v) worker \<Rightarrow> nat" where
  "weight Ready = 1"
| "weight Woken = 1"
| "weight (Running t) = 2"
| "weight w = 0"

definition dtor_weight :: "('m, 'e, 'v) pool \<Rightarrow> nat" where
  "dtor_weight s =
     (case dtor s of
        Alive \<Rightarrow> 0
      | Stopping \<Rightarrow> 2 * length (workers s) + 1
      | Joining k \<Rightarrow> length (workers s) - k)"

definition remaining :: "('m, 'e, 'v) pool \<Rightarrow> nat" where
  "remaining s =
     3 * length (tasks s) + 2 * notifying s + sum_list (map weight (workers s)) + dtor_weight s"

subsection \<open>Invariants\<close>

text \<open>
  The pairs (worker, shared state) of the tasks that workers hold between the locked
  block and the end of the invocation.
\<close>

definition held_by :: "('m, 'e, 'v) worker list \<Rightarrow> (nat \<times> nat) set" where
  "held_by ws = {(i, h). i < length ws \<and> (\<exists>t. ws ! i = Running t \<and> shared_state t = h)}"

text \<open>
  The tasks dequeued so far, followed by the tasks in the queue, are the tasks submitted
  so far in the order of submission.
\<close>

definition inv_fifo :: "('m, 'e, 'v) pool \<Rightarrow> bool" where
  "inv_fifo s \<longleftrightarrow> map snd (claimed s) @ map shared_state (tasks s) = [0..<next_future s]"

text \<open>
  A dequeued task is either held by the worker that dequeued it or was invoked by that
  worker, never both; no task was invoked twice; the shared states that are ready are
  those of the invoked tasks.
\<close>

definition inv_held :: "('m, 'e, 'v) pool \<Rightarrow> bool" where
  "inv_held s \<longleftrightarrow>
     set (claimed s) = set (executed s) \<union> held_by (workers s) \<and>
     set (executed s) \<inter> held_by (workers s) = {} \<and>
     distinct (executed s) \<and>
     dom (futures s) = snd ` set (executed s)"

text \<open>
  The stop flag is set exactly when the destructor has begun; a worker has returned only
  if the flag is set; once the destructor is in its loop no worker is blocked, and the
  workers before its index have returned.
\<close>

definition inv_ctl :: "('m, 'e, 'v) pool \<Rightarrow> bool" where
  "inv_ctl s \<longleftrightarrow>
     (stop s \<longleftrightarrow> dtor s \<noteq> Alive) \<and>
     (Terminated \<in> set (workers s) \<longrightarrow> stop s) \<and>
     (\<forall>k. dtor s = Joining k \<longrightarrow>
        k \<le> length (workers s) \<and> Waiting \<notin> set (workers s) \<and>
        (\<forall>i<k. workers s ! i = Terminated))"

text \<open>
  No wake-up is lost: while the pool is not stopped, a task in the queue has a
  \<^verbatim>\<open>notify_one\<close> outstanding or a worker that is not blocked.
\<close>

definition inv_wake :: "('m, 'e, 'v) pool \<Rightarrow> bool" where
  "inv_wake s \<longleftrightarrow>
     (workers s \<noteq> [] \<and> \<not> stop s \<and> tasks s \<noteq> [] \<and> notifying s = 0 \<longrightarrow>
      (\<exists>w\<in>set (workers s). w \<noteq> Waiting))"

definition pool_inv :: "('m, 'e, 'v) pool \<Rightarrow> bool" where
  "pool_inv s \<longleftrightarrow> inv_fifo s \<and> inv_held s \<and> inv_ctl s \<and> inv_wake s \<and> Crashed \<notin> set (workers s)"

text \<open>
  Once a worker has returned, the first \<open>m\<close> tasks have left the queue (for an \<open>m\<close> that
  is at most the number of tasks submitted when the stop flag was set).
\<close>

definition inv_drain :: "nat \<Rightarrow> ('m, 'e, 'v) pool \<Rightarrow> bool" where
  "inv_drain m s \<longleftrightarrow>
     m \<le> next_future s \<and> (Terminated \<in> set (workers s) \<longrightarrow> m \<le> length (claimed s))"

text \<open>
  Wherever the task with the shared state \<open>h\<close> is (in the queue or held by a worker), its
  call wrapper is \<open>w\<close>, and if it was invoked its outcome is that of \<open>w\<close> in some memory.
\<close>

definition inv_bound :: "nat \<Rightarrow> ('m \<Rightarrow> 'e + 'v) \<Rightarrow> ('m, 'e, 'v) pool \<Rightarrow> bool" where
  "inv_bound h w s \<longleftrightarrow>
     h < next_future s \<and>
     (\<forall>t\<in>set (tasks s). shared_state t = h \<longrightarrow> bound t = w) \<and>
     (\<forall>i<length (workers s). \<forall>t. workers s ! i = Running t \<longrightarrow> shared_state t = h \<longrightarrow>
        bound t = w) \<and>
     (\<forall>r. futures s h = Some r \<longrightarrow> r \<in> range w)"

section \<open>Properties\<close>

subsection \<open>The cases of a step\<close>

lemma step_cases [consumes 1, case_names Submit NotifyNone NotifySome Block Exit Claim Wake Run Crash DtorStop DtorNotifyAll DtorJoin]:
  assumes "step_in mem ev s = Some s'"
  obtains
    f a where "ev = Submit f a" "\<not> destroyed s"
      "s' = s\<lparr>tasks := tasks s @ [Task (next_future s) (\<lambda>u. f a)],
              next_future := Suc (next_future s), notifying := Suc (notifying s)\<rparr>"
  | "ev = NotifyOne None" "0 < notifying s" "Waiting \<notin> set (workers s)"
      "s' = s\<lparr>notifying := notifying s - 1\<rparr>"
  | i where "ev = NotifyOne (Some i)" "0 < notifying s" "i < length (workers s)"
      "workers s ! i = Waiting"
      "s' = s\<lparr>workers := (workers s)[i := Woken], notifying := notifying s - 1\<rparr>"
  | i where "ev = Check i" "i < length (workers s)"
      "workers s ! i = Ready \<or> workers s ! i = Woken" "\<not> stop s" "tasks s = []"
      "s' = s\<lparr>workers := (workers s)[i := Waiting]\<rparr>"
  | i where "ev = Check i" "i < length (workers s)"
      "workers s ! i = Ready \<or> workers s ! i = Woken" "stop s" "tasks s = []"
      "s' = s\<lparr>workers := (workers s)[i := Terminated]\<rparr>"
  | i t ts where "ev = Check i" "i < length (workers s)"
      "workers s ! i = Ready \<or> workers s ! i = Woken" "tasks s = t # ts"
      "s' = s\<lparr>workers := (workers s)[i := Running t], tasks := ts,
              claimed := claimed s @ [(i, shared_state t)]\<rparr>"
  | i where "ev = Wake i" "i < length (workers s)" "workers s ! i = Waiting"
      "s' = s\<lparr>workers := (workers s)[i := Woken]\<rparr>"
  | i t where "ev = Invoke i" "i < length (workers s)" "workers s ! i = Running t"
      "futures s (shared_state t) = None"
      "s' = s\<lparr>workers := (workers s)[i := Ready],
              futures := (futures s)(shared_state t \<mapsto> bound t mem),
              executed := executed s @ [(i, shared_state t)]\<rparr>"
  | i t r where "ev = Invoke i" "i < length (workers s)" "workers s ! i = Running t"
      "futures s (shared_state t) = Some r"
      "s' = s\<lparr>workers := (workers s)[i := Crashed]\<rparr>"
  | "ev = DtorStop" "dtor s = Alive" "s' = s\<lparr>stop := True, dtor := Stopping\<rparr>"
  | "ev = DtorNotifyAll" "dtor s = Stopping"
      "s' = s\<lparr>workers := map (\<lambda>w. case w of Waiting \<Rightarrow> Woken | _ \<Rightarrow> w) (workers s),
              dtor := Joining 0\<rparr>"
  | k where "ev = DtorJoin" "dtor s = Joining k" "k < length (workers s)"
      "workers s ! k = Terminated" "s' = s\<lparr>dtor := Joining (Suc k)\<rparr>"
proof (cases ev)
  case (Submit f a)
  with assms that(1) show ?thesis
    by (auto simp: submit_def Let_def split: if_splits)
next
  case (NotifyOne k)
  with assms that(2,3) show ?thesis
    by (cases k) (auto simp: notify_one_def split: if_splits)
next
  case (Check i)
  show ?thesis
  proof (cases "tasks s")
    case Nil
    with Check assms that(4,5) show ?thesis
      by (cases "stop s") (auto simp: workerThread_locked_def split: if_splits)
  next
    case (Cons t ts)
    with Check assms that(6) show ?thesis
      by (auto simp: workerThread_locked_def split: if_splits)
  qed
next
  case (Wake i)
  with assms that(7) show ?thesis
    by (auto split: if_splits)
next
  case (Invoke i)
  with assms obtain t where t: "i < length (workers s)" "workers s ! i = Running t"
    by (auto simp: is_Running_def split: if_splits)
  show ?thesis
  proof (cases "futures s (shared_state t)")
    case None
    with Invoke assms t that(8) show ?thesis
      by (auto simp: workerThread_task_def packaged_task_call_def)
  next
    case (Some r)
    with Invoke assms t that(9) show ?thesis
      by (auto simp: workerThread_task_def packaged_task_call_def)
  qed
next
  case DtorStop
  with assms that(10) show ?thesis
    by (auto simp: dtor_stop_def split: if_splits)
next
  case DtorNotifyAll
  with assms that(11) show ?thesis
    by (auto simp: dtor_notify_def notify_all_def split: if_splits)
next
  case DtorJoin
  with assms that(12) show ?thesis
    by (auto simp: dtor_join_def split: if_splits dtor_pc.splits)
qed

subsection \<open>Workers that hold a task\<close>

lemma held_by_Running:
  "i < length ws \<Longrightarrow> \<not> is_Running (ws ! i) \<Longrightarrow>
   held_by (ws[i := Running t]) = insert (i, shared_state t) (held_by ws)"
  by (rule set_eqI) (auto simp: held_by_def nth_list_update is_Running_def split: if_splits)

lemma held_by_idle_same:
  "i < length ws \<Longrightarrow> \<not> is_Running w \<Longrightarrow> \<not> is_Running (ws ! i) \<Longrightarrow>
   held_by (ws[i := w]) = held_by ws"
  by (rule set_eqI) (auto simp: held_by_def nth_list_update is_Running_def split: if_splits)

lemma held_by_release:
  "i < length ws \<Longrightarrow> \<not> is_Running w \<Longrightarrow> ws ! i = Running t \<Longrightarrow>
   held_by (ws[i := w]) = held_by ws - {(i, shared_state t)}"
  by (rule set_eqI) (auto simp: held_by_def nth_list_update is_Running_def split: if_splits)

lemma held_by_nth:
  "i < length ws \<Longrightarrow> ws ! i = Running t \<Longrightarrow> (i, shared_state t) \<in> held_by ws"
  by (simp add: held_by_def)

lemma held_by_map_wake:
  "held_by (map (\<lambda>w. case w of Waiting \<Rightarrow> Woken | _ \<Rightarrow> w) ws) = held_by ws"
  by (rule set_eqI) (auto simp: held_by_def split: worker.splits)

lemma not_in_update: "x \<notin> set ws \<Longrightarrow> x \<noteq> w \<Longrightarrow> x \<notin> set (ws[i := w])"
  using set_update_subset_insert [of ws i w] by auto

lemma in_update_other: "x \<in> set (ws[i := w]) \<Longrightarrow> x \<noteq> w \<Longrightarrow> x \<in> set ws"
  using set_update_subset_insert [of ws i w] by auto

subsection \<open>The invariants are kept by every step\<close>

lemma inv_fifo_step:
  assumes "inv_fifo s" "step_in mem ev s = Some s'"
  shows "inv_fifo s'"
  using assms(2,1) by (cases rule: step_cases) (simp_all add: inv_fifo_def)

lemma inv_fifo_fresh:
  assumes "inv_fifo s"
  shows "\<forall>t\<in>set (tasks s). shared_state t < next_future s"
    and "\<forall>p\<in>set (claimed s). snd p < next_future s"
    and "distinct (map snd (claimed s))"
    and "\<forall>t\<in>set (tasks s). shared_state t \<notin> snd ` set (claimed s)"
proof -
  let ?l = "map snd (claimed s) @ map shared_state (tasks s)"
  have eq: "?l = [0..<next_future s]" using assms by (simp add: inv_fifo_def)
  have d: "distinct ?l" by (simp only: eq distinct_upt)
  have "set ?l = {0..<next_future s}" by (simp only: eq set_upt)
  then have "snd ` set (claimed s) \<union> shared_state ` set (tasks s) = {0..<next_future s}"
    by simp
  then show "\<forall>t\<in>set (tasks s). shared_state t < next_future s"
    and "\<forall>p\<in>set (claimed s). snd p < next_future s"
    by (metis UnCI atLeastLessThan_iff imageI)+
  from d show "distinct (map snd (claimed s))" by simp
  from d show "\<forall>t\<in>set (tasks s). shared_state t \<notin> snd ` set (claimed s)" by auto
qed

lemma running_not_ready:
  assumes "inv_fifo s" "inv_held s" "i < length (workers s)" "workers s ! i = Running t"
  shows "futures s (shared_state t) = None"
proof (rule ccontr)
  assume "futures s (shared_state t) \<noteq> None"
  then have "shared_state t \<in> dom (futures s)" by (simp add: dom_def)
  with assms(2) obtain j where j: "(j, shared_state t) \<in> set (executed s)"
    by (auto simp: inv_held_def)
  have h: "(i, shared_state t) \<in> held_by (workers s)"
    using assms(3,4) by (rule held_by_nth)
  from j h assms(2) have c: "(j, shared_state t) \<in> set (claimed s)"
    "(i, shared_state t) \<in> set (claimed s)"
    by (simp_all add: inv_held_def)
  have "inj_on snd (set (claimed s))"
    using inv_fifo_fresh(3) [OF assms(1)] by (simp add: distinct_map)
  from inj_onD [OF this _ c] have "j = i" by simp
  with j h assms(2) show False by (auto simp: inv_held_def)
qed

lemma inv_held_step:
  assumes "inv_fifo s" "inv_held s" "step_in mem ev s = Some s'"
  shows "inv_held s'"
  using assms(3)
proof (cases rule: step_cases)
  case (Submit f a)
  with assms(2) show ?thesis by (simp add: inv_held_def)
next
  case NotifyNone
  with assms(2) show ?thesis by (simp add: inv_held_def)
next
  case (NotifySome i)
  with assms(2) show ?thesis by (simp add: inv_held_def held_by_idle_same)
next
  case (Block i)
  with assms(2) show ?thesis by (auto simp: inv_held_def held_by_idle_same)
next
  case (Exit i)
  with assms(2) show ?thesis by (auto simp: inv_held_def held_by_idle_same)
next
  case (Claim i t ts)
  have fresh: "shared_state t \<notin> snd ` set (claimed s)"
    using inv_fifo_fresh(4) [OF assms(1)] Claim(4) by simp
  have sub: "set (executed s) \<subseteq> set (claimed s)"
    using assms(2) by (auto simp: inv_held_def)
  from fresh sub have "(i, shared_state t) \<notin> set (executed s)" by force
  moreover have "held_by ((workers s)[i := Running t]) = insert (i, shared_state t) (held_by (workers s))"
    using Claim(2,3) by (intro held_by_Running) auto
  ultimately show ?thesis using assms(2) Claim(5) by (auto simp: inv_held_def)
next
  case (Wake i)
  with assms(2) show ?thesis by (simp add: inv_held_def held_by_idle_same)
next
  case (Run i t)
  have h: "(i, shared_state t) \<in> held_by (workers s)"
    using Run(2,3) by (rule held_by_nth)
  have rel: "held_by ((workers s)[i := Ready]) = held_by (workers s) - {(i, shared_state t)}"
    using Run(2,3) by (simp add: held_by_release)
  from h assms(2) have "(i, shared_state t) \<notin> set (executed s)"
    by (auto simp: inv_held_def)
  with h rel assms(2) Run(5) show ?thesis by (auto simp: inv_held_def)
next
  case (Crash i t r)
  with running_not_ready [OF assms(1,2) Crash(2,3)] show ?thesis by simp
next
  case DtorStop
  with assms(2) show ?thesis by (simp add: inv_held_def)
next
  case DtorNotifyAll
  with assms(2) show ?thesis by (simp add: inv_held_def held_by_map_wake)
next
  case (DtorJoin k)
  with assms(2) show ?thesis by (simp add: inv_held_def)
qed

lemma no_crash_step:
  assumes "inv_fifo s" "inv_held s" "Crashed \<notin> set (workers s)" "step_in mem ev s = Some s'"
  shows "Crashed \<notin> set (workers s')"
  using assms(4)
proof (cases rule: step_cases)
  case (Crash i t r)
  with running_not_ready [OF assms(1,2) Crash(2,3)] show ?thesis by simp
next
  case DtorNotifyAll
  with assms(3) show ?thesis by (auto split: worker.splits)
qed (use assms(3) in \<open>simp_all add: not_in_update\<close>)

lemma length_workers_step:
  assumes "step_in mem ev s = Some s'"
  shows "length (workers s') = length (workers s)"
  using assms by (cases rule: step_cases) simp_all

lemma inv_ctl_step:
  assumes "inv_ctl s" "step_in mem ev s = Some s'"
  shows "inv_ctl s'"
  using assms(2)
proof (cases rule: step_cases)
  case (Submit f a)
  with assms(1) show ?thesis by (auto simp: inv_ctl_def)
next
  case NotifyNone
  with assms(1) show ?thesis by (auto simp: inv_ctl_def)
next
  case (NotifySome i)
  with assms(1) show ?thesis
    by (auto simp: inv_ctl_def nth_list_update dest: in_update_other nth_mem)
next
  case (Block i)
  with assms(1) show ?thesis
    by (auto simp: inv_ctl_def dest: in_update_other)
next
  case (Exit i)
  with assms(1) show ?thesis
    by (auto simp: inv_ctl_def nth_list_update dest: in_update_other)
next
  case (Claim i t ts)
  with assms(1) show ?thesis
    by (auto simp: inv_ctl_def nth_list_update dest: in_update_other)
next
  case (Wake i)
  with assms(1) show ?thesis
    by (auto simp: inv_ctl_def nth_list_update dest: in_update_other nth_mem)
next
  case (Run i t)
  with assms(1) show ?thesis
    by (auto simp: inv_ctl_def nth_list_update dest: in_update_other)
next
  case (Crash i t r)
  with assms(1) show ?thesis
    by (auto simp: inv_ctl_def nth_list_update dest: in_update_other)
next
  case DtorStop
  with assms(1) show ?thesis by (auto simp: inv_ctl_def)
next
  case DtorNotifyAll
  with assms(1) show ?thesis by (auto simp: inv_ctl_def split: worker.splits)
next
  case (DtorJoin k)
  with assms(1) show ?thesis by (auto simp: inv_ctl_def less_Suc_eq)
qed

lemma inv_wake_step:
  assumes "inv_wake s" "step_in mem ev s = Some s'"
  shows "inv_wake s'"
  using assms(2)
proof (cases rule: step_cases)
  case (Submit f a)
  then show ?thesis by (simp add: inv_wake_def)
next
  case NotifyNone
  then show ?thesis by (cases "workers s") (auto simp: inv_wake_def)
next
  case (NotifySome i)
  then have "Woken \<in> set (workers s')" by (simp add: set_update_memI)
  then show ?thesis by (auto simp: inv_wake_def)
next
  case (Block i)
  then show ?thesis by (simp add: inv_wake_def)
next
  case (Exit i)
  then show ?thesis by (simp add: inv_wake_def)
next
  case (Claim i t ts)
  then have "Running t \<in> set (workers s')" by (simp add: set_update_memI)
  then show ?thesis by (auto simp: inv_wake_def)
next
  case (Wake i)
  then have "Woken \<in> set (workers s')" by (simp add: set_update_memI)
  then show ?thesis by (auto simp: inv_wake_def)
next
  case (Run i t)
  then have "Ready \<in> set (workers s')" by (simp add: set_update_memI)
  then show ?thesis by (auto simp: inv_wake_def)
next
  case (Crash i t r)
  then have "Crashed \<in> set (workers s')" by (simp add: set_update_memI)
  then show ?thesis by (auto simp: inv_wake_def)
next
  case DtorStop
  then show ?thesis by (simp add: inv_wake_def)
next
  case DtorNotifyAll
  then show ?thesis by (cases "workers s") (auto simp: inv_wake_def split: worker.splits)
next
  case (DtorJoin k)
  with assms(1) show ?thesis by (simp add: inv_wake_def)
qed

lemma pool_inv_step:
  assumes "pool_inv s" "step_in mem ev s = Some s'"
  shows "pool_inv s'"
proof -
  from assms(1) have f: "inv_fifo s" "inv_held s" "inv_ctl s" "inv_wake s"
      "Crashed \<notin> set (workers s)"
    by (simp_all add: pool_inv_def)
  show ?thesis
    unfolding pool_inv_def
    using inv_fifo_step [OF f(1) assms(2)] inv_held_step [OF f(1,2) assms(2)]
      inv_ctl_step [OF f(3) assms(2)] inv_wake_step [OF f(4) assms(2)]
      no_crash_step [OF f(1,2,5) assms(2)]
    by simp
qed

lemma pool_inv_exec:
  assumes "exec evs s = Some s'" "pool_inv s"
  shows "pool_inv s'"
  using assms
proof (induction evs arbitrary: s)
  case Nil
  then show ?case by simp
next
  case (Cons ev evs)
  from Cons.prems(1) obtain s1 where s1: "step ev s = Some s1" "exec evs s1 = Some s'"
    by (auto split: option.splits)
  from Cons.IH [OF s1(2) pool_inv_step [OF Cons.prems(2) s1(1)]] show ?case .
qed

subsection \<open>Reachable states\<close>

lemma spawn_replicate: "spawn i n ws = ws @ replicate (nat (n - i)) Ready"
proof (induction i n ws rule: spawn.induct)
  case (1 i n ws)
  show ?case
  proof (cases "i < n")
    case True
    then have "nat (n - i) = Suc (nat (n - (i + 1)))" by simp
    with True "1" show ?thesis
      by (simp add: spawn.simps [of i n ws] replicate_app_Cons_same)
  next
    case False
    then show ?thesis by (simp add: spawn.simps [of i n ws])
  qed
qed

lemma ThreadPool_workers:
  assumes "ThreadPool n = Inr p"
  shows "workers p = replicate (nat n) Ready"
  using assms by (auto simp: ThreadPool_def spawn_replicate)

lemma ThreadPool_eq:
  "ThreadPool n =
     Inr \<lparr>workers = replicate (nat n) Ready, tasks = [], stop = False,
          futures = (\<lambda>h. None), next_future = 0, notifying = 0, dtor = Alive,
          claimed = [], executed = []\<rparr>"
  by (simp add: ThreadPool_def spawn_replicate)

lemma pool_inv_ThreadPool:
  assumes "ThreadPool n = Inr p"
  shows "pool_inv p"
proof -
  have w: "workers p = replicate (nat n) Ready" using assms by (rule ThreadPool_workers)
  have rest: "tasks p = []" "\<not> stop p" "futures p = (\<lambda>h. None)" "next_future p = 0"
    "notifying p = 0" "dtor p = Alive" "claimed p = []" "executed p = []"
    using assms by (auto simp: ThreadPool_def)
  have h: "held_by (workers p) = {}" by (auto simp: held_by_def w)
  have "inv_fifo p" using rest by (simp add: inv_fifo_def)
  moreover have "inv_held p" using rest h by (simp add: inv_held_def)
  moreover have "inv_ctl p" using rest w by (simp add: inv_ctl_def)
  moreover have "inv_wake p" using rest by (simp add: inv_wake_def)
  moreover have "Crashed \<notin> set (workers p)" using w by simp
  ultimately show ?thesis by (simp add: pool_inv_def)
qed

lemma pool_inv_reachable:
  assumes "ThreadPool n = Inr p" "exec evs p = Some s"
  shows "pool_inv s"
  using assms(2) pool_inv_ThreadPool [OF assms(1)] by (rule pool_inv_exec)

lemma length_workers_exec:
  assumes "exec evs s = Some s'"
  shows "length (workers s') = length (workers s)"
  using assms
proof (induction evs arbitrary: s)
  case Nil
  then show ?case by simp
next
  case (Cons ev evs)
  then show ?case by (auto split: option.splits dest: length_workers_step)
qed

lemma workers_nonempty:
  assumes "ThreadPool n = Inr p" "exec evs p = Some s" "0 < n"
  shows "workers s \<noteq> []"
proof -
  have "length (workers s) = nat n"
    using length_workers_exec [OF assms(2)] ThreadPool_workers [OF assms(1)] by simp
  with assms(3) show ?thesis by auto
qed

lemma no_crash_reachable:
  assumes "ThreadPool n = Inr p" "exec evs p = Some s"
  shows "Crashed \<notin> set (workers s)"
  using pool_inv_reachable [OF assms] by (simp add: pool_inv_def)

subsection \<open>Coming to rest\<close>

lemma sum_weight_update:
  "i < length ws \<Longrightarrow>
   sum_list (map weight (ws[i := w])) + weight (ws ! i) = sum_list (map weight ws) + weight w"
proof (induction ws arbitrary: i)
  case Nil
  then show ?case by simp
next
  case (Cons a ws)
  then show ?case by (cases i) auto
qed

lemma sum_weight_wake:
  "sum_list (map weight (map (\<lambda>w. case w of Waiting \<Rightarrow> Woken | _ \<Rightarrow> w) ws))
     \<le> sum_list (map weight ws) + length ws"
  by (induction ws) (auto split: worker.splits)

lemma remaining_step:
  assumes "step_in mem ev s = Some s'" "internal ev"
  shows "remaining s' < remaining s"
  using assms(1)
proof (cases rule: step_cases)
  case (Submit f a)
  with assms(2) show ?thesis by simp
next
  case NotifyNone
  then show ?thesis by (auto simp: remaining_def dtor_weight_def split: dtor_pc.splits)
next
  case (NotifySome i)
  with sum_weight_update [of i "workers s" Woken] show ?thesis
    by (auto simp: remaining_def dtor_weight_def split: dtor_pc.splits)
next
  case (Block i)
  with sum_weight_update [of i "workers s" Waiting] show ?thesis
    by (auto simp: remaining_def dtor_weight_def split: dtor_pc.splits)
next
  case (Exit i)
  with sum_weight_update [of i "workers s" Terminated] show ?thesis
    by (auto simp: remaining_def dtor_weight_def split: dtor_pc.splits)
next
  case (Claim i t ts)
  with sum_weight_update [of i "workers s" "Running t"] show ?thesis
    by (auto simp: remaining_def dtor_weight_def split: dtor_pc.splits)
next
  case (Wake i)
  with assms(2) show ?thesis by simp
next
  case (Run i t)
  with sum_weight_update [of i "workers s" Ready] show ?thesis
    by (auto simp: remaining_def dtor_weight_def split: dtor_pc.splits)
next
  case (Crash i t r)
  with sum_weight_update [of i "workers s" Crashed] show ?thesis
    by (auto simp: remaining_def dtor_weight_def split: dtor_pc.splits)
next
  case DtorStop
  with assms(2) show ?thesis by simp
next
  case DtorNotifyAll
  with sum_weight_wake [of "workers s"] show ?thesis
    by (auto simp: remaining_def dtor_weight_def split: dtor_pc.splits)
next
  case (DtorJoin k)
  then show ?thesis by (auto simp: remaining_def dtor_weight_def split: dtor_pc.splits)
qed

lemma remaining_exec:
  assumes "exec evs s = Some s'" "list_all internal evs"
  shows "length evs + remaining s' \<le> remaining s"
  using assms
proof (induction evs arbitrary: s)
  case Nil
  then show ?case by simp
next
  case (Cons ev evs)
  from Cons.prems obtain s1 where s1: "step ev s = Some s1" "exec evs s1 = Some s'"
    by (auto split: option.splits)
  from Cons.prems have "internal ev" "list_all internal evs" by simp_all
  with s1 Cons.IH [of s1] remaining_step [of _ ev s s1] show ?case by simp
qed

lemma quiescent_no_step:
  assumes "quiescent s" "internal ev"
  shows "step_in mem ev s = None"
proof (rule ccontr)
  assume "step_in mem ev s \<noteq> None"
  then obtain s' where "step_in mem ev s = Some s'" by auto
  then show False
  proof (cases rule: step_cases)
    case (Submit f a)
    with assms(2) show ?thesis by simp
  next
    case (Wake i)
    with assms(2) show ?thesis by simp
  next
    case DtorStop
    with assms(2) show ?thesis by simp
  next
    case (DtorJoin k)
    with assms(1) show ?thesis by (simp add: quiescent_def dtor_join_def)
  qed (use assms(1) in \<open>auto simp: quiescent_def list_all_length\<close>)
qed

lemma busy_step:
  assumes "\<not> quiescent s"
  shows "\<exists>ev :: ('a, 'e, 'v) event. internal ev \<and> step_in mem ev s \<noteq> None"
proof -
  consider "notifying s \<noteq> 0" "Waiting \<in> set (workers s)"
    | "notifying s \<noteq> 0" "Waiting \<notin> set (workers s)"
    | "\<not> list_all (\<lambda>w. w = Waiting \<or> w = Terminated \<or> w = Crashed) (workers s)"
    | "dtor s = Stopping" | "dtor_join s \<noteq> None"
    using assms by (auto simp: quiescent_def)
  then show ?thesis
  proof cases
    case 1
    then obtain i where "i < length (workers s)" "workers s ! i = Waiting"
      by (auto simp: in_set_conv_nth)
    with 1 have "step_in mem (NotifyOne (Some i)) s \<noteq> None" by (simp add: notify_one_def)
    then show ?thesis by (intro exI [of _ "NotifyOne (Some i)"]) simp
  next
    case 2
    then have "step_in mem (NotifyOne None) s \<noteq> None" by (simp add: notify_one_def)
    then show ?thesis by (intro exI [of _ "NotifyOne None"]) simp
  next
    case 3
    then obtain i where i: "i < length (workers s)"
      "workers s ! i \<noteq> Waiting" "workers s ! i \<noteq> Terminated" "workers s ! i \<noteq> Crashed"
      by (auto simp: list_all_length)
    show ?thesis
    proof (cases "workers s ! i")
      case (Running t)
      with i have "step_in mem (Invoke i) s \<noteq> None" by simp
      then show ?thesis by (intro exI [of _ "Invoke i"]) simp
    qed (use i in \<open>auto intro!: exI [of _ "Check i"]\<close>)
  next
    case 4
    then have "step_in mem DtorNotifyAll s \<noteq> None" by simp
    then show ?thesis by (intro exI [of _ DtorNotifyAll]) simp
  next
    case 5
    then have "step_in mem DtorJoin s \<noteq> None" by simp
    then show ?thesis by (intro exI [of _ DtorJoin]) simp
  qed
qed

lemma settles:
  "\<exists>evs s'. list_all internal (evs :: ('a, 'e, 'v) event list) \<and> exec evs s = Some s' \<and> quiescent s'"
proof (induction "remaining s" arbitrary: s rule: less_induct)
  case less
  show ?case
  proof (cases "quiescent s")
    case True
    then have "list_all internal ([] :: ('a, 'e, 'v) event list) \<and> exec [] s = Some s \<and> quiescent s"
      by simp
    then show ?thesis by blast
  next
    case False
    then obtain ev :: "('a, 'e, 'v) event" and s1 where ev: "internal ev" "step ev s = Some s1"
      using busy_step [of s] by auto
    then have "remaining s1 < remaining s" by (simp add: remaining_step)
    from less [OF this] obtain evs :: "('a, 'e, 'v) event list" and s'
      where "list_all internal evs" "exec evs s1 = Some s'" "quiescent s'" by blast
    with ev have "list_all internal (ev # evs) \<and> exec (ev # evs) s = Some s' \<and> quiescent s'"
      by simp
    then show ?thesis by blast
  qed
qed

subsection \<open>The order of the queue\<close>

lemma length_claimed:
  assumes "inv_fifo s"
  shows "length (claimed s) + length (tasks s) = next_future s"
proof -
  have "length (map snd (claimed s) @ map shared_state (tasks s)) = length [0..<next_future s]"
    using assms by (simp only: inv_fifo_def)
  then show ?thesis by simp
qed

lemma claimed_prefix:
  assumes "inv_fifo s"
  shows "map snd (claimed s) = [0..<length (claimed s)]"
proof -
  have "take (length (claimed s)) (map snd (claimed s) @ map shared_state (tasks s))
      = take (length (claimed s)) [0..<next_future s]"
    using assms by (simp only: inv_fifo_def)
  moreover have "length (claimed s) \<le> next_future s"
    using length_claimed [OF assms] by simp
  ultimately show ?thesis by (simp add: take_upt)
qed

lemma queue_suffix:
  assumes "inv_fifo s"
  shows "map shared_state (tasks s) = [length (claimed s)..<next_future s]"
proof -
  have "drop (length (claimed s)) (map snd (claimed s) @ map shared_state (tasks s))
      = drop (length (claimed s)) [0..<next_future s]"
    using assms by (simp only: inv_fifo_def)
  then show ?thesis by (simp add: drop_upt)
qed

lemma count_distinct: "distinct xs \<Longrightarrow> count_list xs x = (if x \<in> set xs then 1 else 0)"
  by (induction xs) auto

lemma count_upt: "count_list [0..<n] h = (if h < n then 1 else 0)"
  by (simp add: count_distinct)

lemma pool_inv_distinct:
  assumes "pool_inv s"
  shows "distinct (map snd (claimed s))" and "distinct (map snd (executed s))"
proof -
  from assms have f: "inv_fifo s" and h: "inv_held s" by (simp_all add: pool_inv_def)
  show c: "distinct (map snd (claimed s))" by (rule inv_fifo_fresh(3) [OF f])
  then have "inj_on snd (set (claimed s))" by (simp add: distinct_map)
  moreover from h have "set (executed s) \<subseteq> set (claimed s)" by (auto simp: inv_held_def)
  ultimately have "inj_on snd (set (executed s))" by (rule inj_on_subset)
  with h show "distinct (map snd (executed s))" by (simp add: distinct_map inv_held_def)
qed

lemma pool_inv_counts:
  assumes "pool_inv s"
  shows "invocations s h \<le> 1" and "dequeues s h \<le> 1" and "invocations s h \<le> dequeues s h"
    and "set (executed s) \<subseteq> set (claimed s)"
    and "h < next_future s \<Longrightarrow> count_list (map shared_state (tasks s)) h + dequeues s h = 1"
proof -
  from assms have f: "inv_fifo s" and hd: "inv_held s" by (simp_all add: pool_inv_def)
  show sub: "set (executed s) \<subseteq> set (claimed s)" using hd by (auto simp: inv_held_def)
  show "invocations s h \<le> 1" "dequeues s h \<le> 1"
    using pool_inv_distinct [OF assms] by (simp_all add: invocations_def dequeues_def count_distinct)
  from sub have "h \<in> snd ` set (executed s) \<Longrightarrow> h \<in> snd ` set (claimed s)" by auto
  then show "invocations s h \<le> dequeues s h"
    using pool_inv_distinct [OF assms] by (simp add: invocations_def dequeues_def count_distinct)
  have "count_list (map snd (claimed s) @ map shared_state (tasks s)) h = count_list [0..<next_future s] h"
    using f by (simp only: inv_fifo_def)
  then show "h < next_future s \<Longrightarrow> count_list (map shared_state (tasks s)) h + dequeues s h = 1"
    by (simp add: count_upt dequeues_def)
qed

subsection \<open>Draining the queue\<close>

lemma inv_drain_step:
  assumes "inv_fifo s" "inv_drain m s" "step_in mem ev s = Some s'"
  shows "inv_drain m s'"
  using assms(3)
proof (cases rule: step_cases)
  case (Exit i)
  with length_claimed [OF assms(1)] assms(2) show ?thesis by (simp add: inv_drain_def)
next
  case DtorNotifyAll
  with assms(2) show ?thesis by (auto simp: inv_drain_def split: worker.splits)
qed (use assms(2) in \<open>auto simp: inv_drain_def dest: in_update_other\<close>)

lemma inv_drain_exec:
  assumes "exec evs s = Some s'" "pool_inv s" "inv_drain m s"
  shows "inv_drain m s'"
  using assms
proof (induction evs arbitrary: s)
  case Nil
  then show ?case by simp
next
  case (Cons ev evs)
  from Cons.prems obtain s1 where s1: "step ev s = Some s1" "exec evs s1 = Some s'"
    by (auto split: option.splits)
  have "pool_inv s1" using Cons.prems(2) s1(1) by (rule pool_inv_step)
  moreover have "inv_drain m s1"
    using Cons.prems(2,3) s1(1) by (auto simp: pool_inv_def intro: inv_drain_step)
  ultimately show ?case using s1(2) Cons.IH by blast
qed

lemma pre_stop_drain:
  assumes "exec evs s0 = Some s" "pool_inv s0" "\<not> stop s0"
  shows "inv_drain (next_future s0 + pre_stop evs) s"
  using assms
proof (induction evs arbitrary: s0)
  case Nil
  then show ?case by (auto simp: inv_drain_def pool_inv_def inv_ctl_def)
next
  case (Cons ev evs)
  from Cons.prems obtain s1 where s1: "step ev s0 = Some s1" "exec evs s1 = Some s"
    by (auto split: option.splits)
  have inv1: "pool_inv s1" using Cons.prems(2) s1(1) by (rule pool_inv_step)
  from s1(1) show ?case
  proof (cases rule: step_cases)
    case (Submit f a)
    with Cons.prems have "\<not> stop s1" "next_future s1 = Suc (next_future s0)" by simp_all
    with Cons.IH [OF s1(2) inv1] Submit(1) show ?thesis by simp
  next
    case DtorStop
    have "inv_drain (next_future s0) s1"
      using Cons.prems(2,3) DtorStop by (auto simp: inv_drain_def pool_inv_def inv_ctl_def)
    from inv_drain_exec [OF s1(2) inv1 this] DtorStop(1) show ?thesis by simp
  next
    case (Exit i)
    with Cons.prems show ?thesis by simp
  qed (use Cons.IH [OF s1(2) inv1] Cons.prems(3) in simp_all)
qed

lemma reachable_drain:
  assumes "ThreadPool n = Inr p" "exec evs p = Some s"
  shows "inv_drain (pre_stop evs) s"
proof -
  have "pool_inv p" using assms(1) by (rule pool_inv_ThreadPool)
  moreover from assms(1) have "\<not> stop p" "next_future p = 0" by (auto simp: ThreadPool_def)
  ultimately show ?thesis using pre_stop_drain [OF assms(2)] by simp
qed

lemma quiescent_stopped:
  assumes "pool_inv s" "stop s" "quiescent s"
  shows "destroyed s" and "\<forall>i<length (workers s). workers s ! i = Terminated"
proof -
  from assms obtain k where k: "dtor s = Joining k"
    by (cases "dtor s") (auto simp: pool_inv_def inv_ctl_def quiescent_def)
  with assms(1) have j: "k \<le> length (workers s)" "Waiting \<notin> set (workers s)"
    "\<forall>i<k. workers s ! i = Terminated" "Crashed \<notin> set (workers s)"
    by (auto simp: pool_inv_def inv_ctl_def)
  have "k = length (workers s)"
  proof (rule ccontr)
    assume "k \<noteq> length (workers s)"
    with j(1) have lt: "k < length (workers s)" by simp
    with assms(3) k have "workers s ! k \<noteq> Terminated"
      by (auto simp: quiescent_def dtor_join_def)
    moreover from assms(3) lt have "workers s ! k = Waiting \<or> workers s ! k = Terminated
        \<or> workers s ! k = Crashed"
      by (simp add: quiescent_def list_all_length)
    ultimately show False using j(2,4) nth_mem [OF lt] by metis
  qed
  with k j(3) show "destroyed s" and "\<forall>i<length (workers s). workers s ! i = Terminated"
    by (simp_all add: destroyed_def)
qed

lemma quiescent_live:
  assumes "pool_inv s" "\<not> stop s" "quiescent s"
  shows "\<forall>i<length (workers s). workers s ! i = Waiting" and "workers s \<noteq> [] \<longrightarrow> tasks s = []"
proof -
  from assms(1,2) have nt: "Terminated \<notin> set (workers s)" "Crashed \<notin> set (workers s)"
    by (auto simp: pool_inv_def inv_ctl_def)
  show w: "\<forall>i<length (workers s). workers s ! i = Waiting"
  proof (intro allI impI)
    fix i assume lt: "i < length (workers s)"
    with assms(3) have "workers s ! i = Waiting \<or> workers s ! i = Terminated
        \<or> workers s ! i = Crashed"
      by (simp add: quiescent_def list_all_length)
    with nt nth_mem [OF lt] show "workers s ! i = Waiting" by auto
  qed
  then have "\<forall>w\<in>set (workers s). w = Waiting" by (auto simp: in_set_conv_nth)
  with assms show "workers s \<noteq> [] \<longrightarrow> tasks s = []"
    by (auto simp: pool_inv_def inv_wake_def quiescent_def)
qed

lemma quiescent_held:
  assumes "quiescent s"
  shows "held_by (workers s) = {}"
  using assms by (auto simp: held_by_def quiescent_def list_all_length)

lemma quiescent_drained:
  assumes "pool_inv s" "inv_drain m s" "workers s \<noteq> []" "quiescent s"
  shows "m \<le> length (claimed s)"
proof (cases "stop s")
  case True
  from quiescent_stopped(2) [OF assms(1) True assms(4)] assms(3)
  have "Terminated \<in> set (workers s)" by (cases "workers s") auto
  with assms(2) show ?thesis by (simp add: inv_drain_def)
next
  case False
  from quiescent_live(2) [OF assms(1) False assms(4)] assms(3) have "tasks s = []" by simp
  with length_claimed [of s] assms(1,2) show ?thesis by (simp add: pool_inv_def inv_drain_def)
qed

lemma quiescent_executed:
  assumes "pool_inv s" "inv_drain m s" "workers s \<noteq> []" "quiescent s" "h < m"
  shows "h \<in> snd ` set (executed s)"
proof -
  have "h < length (claimed s)"
    using quiescent_drained [OF assms(1-4)] assms(5) by simp
  then have "h \<in> set [0..<length (claimed s)]" by simp
  then have "h \<in> set (map snd (claimed s))"
    using claimed_prefix [of s] assms(1) by (simp add: pool_inv_def)
  moreover have "set (claimed s) = set (executed s)"
    using assms(1) quiescent_held [OF assms(4)] by (simp add: pool_inv_def inv_held_def)
  ultimately show ?thesis by simp
qed

lemma drained_once:
  assumes "pool_inv s" "m \<le> length (claimed s)" "held_by (workers s) = {}" "h < m"
  shows "invocations s h = 1" and "dequeues s h = 1" and "futures s h \<noteq> None"
proof -
  from assms(2,4) have "h \<in> set [0..<length (claimed s)]" by simp
  then have c: "h \<in> set (map snd (claimed s))"
    using claimed_prefix [of s] assms(1) by (simp add: pool_inv_def)
  moreover have "set (claimed s) = set (executed s)"
    using assms(1,3) by (simp add: pool_inv_def inv_held_def)
  ultimately have e: "h \<in> set (map snd (executed s))" by simp
  from c e show "invocations s h = 1" "dequeues s h = 1"
    using pool_inv_distinct [OF assms(1)] by (simp_all add: invocations_def dequeues_def count_distinct)
  from e assms(1) show "futures s h \<noteq> None"
    by (auto simp: pool_inv_def inv_held_def)
qed

subsection \<open>The bound call of a task\<close>

lemma submit_as_ref: "submit f args s = submit_ref f (\<lambda>m. args) s"
  by (simp add: submit_def submit_ref_def)

lemma pool_inv_submit_ref:
  assumes "pool_inv s" "submit_ref f r s = Inr (h, s1)"
  shows "pool_inv s1"
proof -
  from assms(2) have s1: "s1 = s\<lparr>tasks := tasks s @ [Task (next_future s) (\<lambda>m. f (r m))],
      next_future := Suc (next_future s), notifying := Suc (notifying s)\<rparr>"
    by (auto simp: submit_ref_def Let_def)
  from assms(1) have "inv_fifo s1" by (simp add: s1 pool_inv_def inv_fifo_def)
  moreover from assms(1) have "inv_held s1" by (simp add: s1 pool_inv_def inv_held_def)
  moreover from assms(1) have "inv_ctl s1" by (auto simp: s1 pool_inv_def inv_ctl_def)
  moreover have "inv_wake s1" by (simp add: s1 inv_wake_def)
  moreover from assms(1) have "Crashed \<notin> set (workers s1)" by (simp add: s1 pool_inv_def)
  ultimately show ?thesis by (simp add: pool_inv_def)
qed

lemma pool_inv_submit:
  assumes "pool_inv s" "submit f args s = Inr (h, s1)"
  shows "pool_inv s1"
  using assms by (simp add: submit_as_ref pool_inv_submit_ref)

lemma inv_bound_submit_ref:
  assumes "pool_inv s" "submit_ref f r s = Inr (h, s1)"
  shows "inv_bound h (\<lambda>m. f (r m)) s1"
proof -
  from assms(1) have f: "inv_fifo s" and hd: "inv_held s" by (simp_all add: pool_inv_def)
  from assms(2) have h: "h = next_future s"
    and s1: "s1 = s\<lparr>tasks := tasks s @ [Task h (\<lambda>m. f (r m))], next_future := Suc h,
                  notifying := Suc (notifying s)\<rparr>"
    by (auto simp: submit_ref_def Let_def)
  have q: "\<forall>t\<in>set (tasks s). shared_state t \<noteq> h"
    using inv_fifo_fresh(1) [OF f] h by auto
  have c: "\<forall>p\<in>set (claimed s). snd p \<noteq> h"
    using inv_fifo_fresh(2) [OF f] h by auto
  have r: "\<forall>i<length (workers s). \<forall>t. workers s ! i = Running t \<longrightarrow> shared_state t \<noteq> h"
  proof (intro allI impI)
    fix i t assume "i < length (workers s)" "workers s ! i = Running t"
    then have "(i, shared_state t) \<in> held_by (workers s)" by (rule held_by_nth)
    with hd have "(i, shared_state t) \<in> set (claimed s)" by (simp add: inv_held_def)
    with c show "shared_state t \<noteq> h" by auto
  qed
  have "h \<notin> snd ` set (executed s)"
    using c hd by (auto simp: inv_held_def)
  with hd have "futures s h = None" by (auto simp: inv_held_def)
  with q r show ?thesis by (simp add: inv_bound_def s1)
qed

lemma inv_bound_submit:
  assumes "pool_inv s" "submit f args s = Inr (h, s1)"
  shows "inv_bound h (\<lambda>m. f args) s1"
  using assms inv_bound_submit_ref [of s f "\<lambda>m. args" h s1] by (simp add: submit_as_ref)

lemma inv_bound_step:
  assumes "inv_bound h w s" "step_in mem ev s = Some s'"
  shows "inv_bound h w s'"
  using assms(2)
proof (cases rule: step_cases)
  case (Claim i t ts)
  with assms(1) show ?thesis by (auto simp: inv_bound_def nth_list_update)
next
  case (Run i t)
  with assms(1) show ?thesis by (auto simp: inv_bound_def nth_list_update)
next
  case DtorNotifyAll
  with assms(1) show ?thesis by (auto simp: inv_bound_def split: worker.splits)
qed (use assms(1) in \<open>auto simp: inv_bound_def nth_list_update\<close>)

lemma inv_bound_exec:
  assumes "exec evs s = Some s'" "inv_bound h w s"
  shows "inv_bound h w s'"
  using assms
proof (induction evs arbitrary: s)
  case Nil
  then show ?case by simp
next
  case (Cons ev evs)
  then show ?case by (auto split: option.splits dest: inv_bound_step)
qed

lemma inv_bound_value:
  assumes "inv_bound h (\<lambda>m. r) s"
  shows "get s h = None \<or> get s h = Some r"
    and "i < length (workers s) \<Longrightarrow> workers s ! i = Running t \<Longrightarrow> shared_state t = h \<Longrightarrow>
         bound t mem = r"
  using assms by (cases "futures s h"; auto simp: get_def inv_bound_def)+

subsection \<open>Single steps\<close>

lemma exit_only_when_drained:
  assumes "step_in mem ev s = Some s'" "i < length (workers s)" "workers s' ! i = Terminated"
    "workers s ! i \<noteq> Terminated"
  shows "ev = Check i \<and> stop s \<and> tasks s = [] \<and> \<not> is_Running (workers s ! i)"
  using assms(1)
proof (cases rule: step_cases)
  case DtorNotifyAll
  with assms(2-4) show ?thesis by (auto split: worker.splits)
qed (use assms(2-4) in \<open>auto simp: nth_list_update split: if_splits\<close>)

lemma invoke_held:
  assumes "pool_inv s" "i < length (workers s)" "workers s ! i = Running t"
  shows "\<exists>s'. step_in mem (Invoke i) s = Some s' \<and>
           get s' (shared_state t) = Some (bound t mem) \<and>
           workers s' ! i = Ready \<and> tasks s' = tasks s \<and>
           (\<forall>j<length (workers s). j \<noteq> i \<longrightarrow> workers s' ! j = workers s ! j)"
proof -
  have "futures s (shared_state t) = None"
    using assms by (auto simp: pool_inv_def intro: running_not_ready)
  with assms(2,3) show ?thesis
    by (simp add: workerThread_task_def packaged_task_call_def get_def)
qed

lemma stop_step:
  assumes "step_in mem ev s = Some s'"
  shows "stop s' \<longleftrightarrow> stop s \<or> ev = DtorStop"
    and "ev = DtorStop \<longrightarrow> dtor s = Alive" and "dtor s \<noteq> Alive \<longrightarrow> dtor s' \<noteq> Alive"
  using assms by (cases rule: step_cases; simp)+

lemma stop_trace:
  assumes "exec evs s0 = Some s"
  shows "(stop s \<longleftrightarrow> stop s0 \<or> DtorStop \<in> set evs) \<and>
         (dtor s0 \<noteq> Alive \<longrightarrow> DtorStop \<notin> set evs) \<and>
         count_list evs DtorStop \<le> 1"
  using assms
proof (induction evs arbitrary: s0)
  case Nil
  then show ?case by simp
next
  case (Cons ev evs)
  from Cons.prems obtain s1 where s1: "step ev s0 = Some s1" "exec evs s1 = Some s"
    by (auto split: option.splits)
  note ih = Cons.IH [OF s1(2)]
  note st = stop_step [OF s1(1)]
  show ?case
  proof (cases "ev = DtorStop")
    case True
    with s1(1) have "dtor s1 \<noteq> Alive" by (auto simp: dtor_stop_def split: if_splits)
    with ih st True show ?thesis by auto
  next
    case False
    with ih st show ?thesis by auto
  qed
qed


lemma check_ready:
  assumes "i < length (workers s)" "workers s ! i = Ready \<or> workers s ! i = Woken"
  shows "\<exists>s'. step_in mem (Check i) s = Some s' \<and>
           (tasks s \<noteq> [] \<longrightarrow> workers s' ! i = Running (hd (tasks s)) \<and> tasks s' = tl (tasks s))"
  using assms by (auto simp: workerThread_locked_def)

lemma check_cases:
  assumes "step_in mem (Check i) s = Some s'"
  shows "(\<not> stop s \<and> tasks s = [] \<longrightarrow>
            workers s' ! i = Waiting \<and> tasks s' = [] \<and> claimed s' = claimed s) \<and>
         (stop s \<and> tasks s = [] \<longrightarrow>
            workers s' ! i = Terminated \<and> tasks s' = [] \<and> claimed s' = claimed s) \<and>
         (tasks s \<noteq> [] \<longrightarrow>
            workers s' ! i = Running (hd (tasks s)) \<and> tasks s' = tl (tasks s) \<and>
            claimed s' = claimed s @ [(i, shared_state (hd (tasks s)))]) \<and>
         (\<forall>j<length (workers s). j \<noteq> i \<longrightarrow> workers s' ! j = workers s ! j)"
  using assms by (auto simp: workerThread_locked_def split: if_splits)

lemma terminal:
  assumes "step_in mem ev s = Some s'" "j < length (workers s)" "workers s ! j = Terminated"
  shows "workers s' ! j = Terminated"
  using assms(1)
  by (cases rule: step_cases) (use assms(2,3) in \<open>auto simp: nth_list_update\<close>)

lemma blocked:
  assumes "step_in mem ev s = Some s'" "j < length (workers s)" "workers s ! j = Waiting"
  shows "workers s' ! j = Waiting \<or> workers s' ! j = Woken"
  using assms(1)
  by (cases rule: step_cases) (use assms(2,3) in \<open>auto simp: nth_list_update\<close>)

lemma submit_notifies:
  assumes "step_in mem (Submit f args) s = Some s'"
  shows "notifying s' = Suc (notifying s) \<and> workers s' = workers s \<and>
         tasks s' = tasks s @ [Task (next_future s) (\<lambda>u. f args)]"
  using assms by (auto simp: submit_def Let_def split: if_splits)

lemma notify_one_wakes:
  assumes "step_in mem (NotifyOne k) s = Some s'"
  shows "0 < notifying s \<and> notifying s' = notifying s - 1 \<and>
         tasks s' = tasks s \<and> stop s' = stop s \<and>
         (if Waiting \<in> set (workers s)
          then \<exists>i<length (workers s). workers s ! i = Waiting \<and> workers s' = (workers s)[i := Woken]
          else workers s' = workers s)"
  using assms
  by (cases k) (auto simp: notify_one_def split: if_splits dest: nth_mem)

lemma notify_one_enabled:
  assumes "0 < notifying s"
  shows "\<exists>k s'. step_in mem (NotifyOne k) s = Some s'"
proof (cases "Waiting \<in> set (workers s)")
  case True
  then obtain i where "i < length (workers s)" "workers s ! i = Waiting"
    by (auto simp: in_set_conv_nth)
  with assms have "\<exists>s'. step_in mem (NotifyOne (Some i)) s = Some s'" by (simp add: notify_one_def)
  then show ?thesis by blast
next
  case False
  with assms have "\<exists>s'. step_in mem (NotifyOne None) s = Some s'" by (simp add: notify_one_def)
  then show ?thesis by blast
qed

lemma dtor_stop_then_notify:
  assumes "step_in mem DtorStop s = Some s'"
  shows "stop s' \<and> workers s' = workers s \<and> tasks s' = tasks s \<and>
         (\<exists>s''. step_in mem DtorNotifyAll s' = Some s'')"
  using assms by (auto simp: dtor_stop_def split: if_splits)

lemma notify_all_wakes:
  assumes "step_in mem DtorNotifyAll s = Some s'"
  shows "Waiting \<notin> set (workers s') \<and> length (workers s') = length (workers s) \<and>
         (\<forall>i<length (workers s).
            workers s' ! i = (if workers s ! i = Waiting then Woken else workers s ! i))"
  using assms
  by (auto simp: dtor_notify_def notify_all_def split: if_splits worker.splits)

lemma woken_rechecks:
  assumes "step_in mem ev s = Some s'" "i < length (workers s)" "workers s ! i = Woken"
    "workers s' ! i \<noteq> Woken"
  shows "ev = Check i"
  using assms(1)
  by (cases rule: step_cases) (use assms(2-4) in \<open>auto simp: nth_list_update split: if_splits\<close>)

lemma check_outcome:
  assumes "step_in mem (Check i) s = Some s'"
  shows "(workers s' ! i = Terminated \<longrightarrow> stop s \<and> tasks s = []) \<and>
         (is_Running (workers s' ! i) \<longrightarrow> tasks s \<noteq> [] \<and> workers s' ! i = Running (hd (tasks s))) \<and>
         (workers s' ! i = Waiting \<longleftrightarrow> \<not> stop s \<and> tasks s = [])"
  using assms by (auto simp: workerThread_locked_def split: if_splits)

lemma spurious_wake:
  assumes "i < length (workers s)" "workers s ! i = Waiting" "\<not> stop s" "tasks s = []"
  shows "exec [Wake i, Check i] s = Some s"
proof -
  have "(workers s)[i := Waiting] = workers s"
    using assms(1,2) by (simp add: list_update_same_conv)
  with assms show ?thesis by (simp add: workerThread_locked_def)
qed

lemma not_lost:
  assumes "pool_inv s" "workers s \<noteq> []" "\<not> stop s" "tasks s \<noteq> []" "notifying s = 0"
  shows "\<exists>i<length (workers s).
           workers s ! i = Ready \<or> workers s ! i = Woken \<or> is_Running (workers s ! i)"
proof -
  from assms obtain w where w: "w \<in> set (workers s)" "w \<noteq> Waiting"
    by (auto simp: pool_inv_def inv_wake_def)
  from assms(1,3) have "Terminated \<notin> set (workers s)" "Crashed \<notin> set (workers s)"
    by (auto simp: pool_inv_def inv_ctl_def)
  with w(1) have "w \<noteq> Terminated" "w \<noteq> Crashed" by auto
  with w(2) have "w = Ready \<or> w = Woken \<or> is_Running w" by (cases w) auto
  with w(1) show ?thesis by (auto simp: in_set_conv_nth)
qed

subsection \<open>The result of a task\<close>

lemma exec_append:
  "exec (evs @ evs') s = (case exec evs s of None \<Rightarrow> None | Some s' \<Rightarrow> exec evs' s')"
  by (induction evs arbitrary: s) (auto split: option.splits)

lemma stop_exec:
  assumes "exec evs s = Some s'" "stop s"
  shows "stop s'"
  using stop_trace [OF assms(1)] assms(2) by simp

lemma result_safe:
  assumes "pool_inv s" "submit f args s = Inr (h, s1)" "exec evs2 s1 = Some s2"
  shows "get s2 h = None \<or> get s2 h = Some (f args)"
proof -
  have "inv_bound h (\<lambda>m. f args) s2"
    using assms(3) inv_bound_submit [OF assms(1,2)] by (rule inv_bound_exec)
  then show ?thesis by (rule inv_bound_value(1))
qed

lemma result_ready:
  assumes "pool_inv s" "submit f args s = Inr (h, s1)" "exec evs2 s1 = Some s2"
    "workers s \<noteq> []" "\<not> stop s" "quiescent s2"
  shows "get s2 h = Some (f args)"
proof -
  from assms(2) have h: "h = next_future s" and nf: "next_future s1 = Suc h"
    and st: "stop s1 = stop s" and ws: "workers s1 = workers s"
    by (auto simp: submit_def Let_def)
  have inv1: "pool_inv s1" using assms(1,2) by (rule pool_inv_submit)
  have "inv_drain (next_future s1 + pre_stop evs2) s2"
    using assms(3) inv1 assms(5) st by (intro pre_stop_drain) simp_all
  then have d: "inv_drain (Suc h) s2" using nf by (auto simp: inv_drain_def)
  have inv2: "pool_inv s2" using assms(3) inv1 by (rule pool_inv_exec)
  have ne: "workers s2 \<noteq> []"
    using length_workers_exec [OF assms(3)] ws assms(4) by auto
  have "h \<in> snd ` set (executed s2)"
    using inv2 d ne assms(6) by (rule quiescent_executed) simp
  with inv2 have "get s2 h \<noteq> None" by (auto simp: get_def pool_inv_def inv_held_def)
  with result_safe [OF assms(1-3)] show ?thesis by simp
qed

lemma result_arrives:
  assumes "pool_inv s" "submit f args s = Inr (h, s1)"
    "exec (evs2 :: ('a, 'e, 'v) event list) s1 = Some s2" "workers s \<noteq> []" "\<not> stop s"
  shows "\<exists>(evs3 :: ('a, 'e, 'v) event list) s3.
           list_all internal evs3 \<and> exec evs3 s2 = Some s3 \<and> get s3 h = Some (f args)"
proof -
  from settles [of s2] obtain evs3 :: "('a, 'e, 'v) event list" and s3
    where r: "list_all internal evs3" "exec evs3 s2 = Some s3" "quiescent s3" by blast
  from assms(3) r(2) have "exec (evs2 @ evs3) s1 = Some s3" by (simp add: exec_append)
  from result_ready [OF assms(1,2) this assms(4,5) r(3)] r(1,2) show ?thesis by blast
qed

lemma destruction_completes:
  assumes "pool_inv s" "stop s"
  shows "\<exists>(evs' :: ('a, 'e, 'v) event list) s'.
           list_all internal evs' \<and> exec evs' s = Some s' \<and> destroyed s'"
proof -
  from settles [of s] obtain evs' :: "('a, 'e, 'v) event list" and s'
    where r: "list_all internal evs'" "exec evs' s = Some s'" "quiescent s'" by blast
  have "pool_inv s'" using r(2) assms(1) by (rule pool_inv_exec)
  moreover have "stop s'" using r(2) assms(2) by (rule stop_exec)
  ultimately have "destroyed s'" using r(3) by (rule quiescent_stopped)
  with r(1,2) show ?thesis by blast
qed

lemma gone_step:
  assumes "step_in mem ev s = Some s'" "list_all (\<lambda>w. w = Terminated) (workers s)"
  shows "futures s' = futures s \<and> list_all (\<lambda>w. w = Terminated) (workers s')"
  using assms(1)
proof (cases rule: step_cases)
  case DtorNotifyAll
  with assms(2) show ?thesis by (auto simp: list_all_iff)
qed (use assms(2) in \<open>auto simp: list_all_length\<close>)

lemma gone_exec:
  assumes "exec evs s = Some s'" "list_all (\<lambda>w. w = Terminated) (workers s)"
  shows "futures s' = futures s \<and> list_all (\<lambda>w. w = Terminated) (workers s')"
  using assms
proof (induction evs arbitrary: s)
  case Nil
  then show ?case by simp
next
  case (Cons ev evs)
  from Cons.prems(1) obtain s1 where s1: "step ev s = Some s1" "exec evs s1 = Some s'"
    by (auto split: option.splits)
  from gone_step [OF s1(1) Cons.prems(2)] Cons.IH [OF s1(2)] show ?case by simp
qed

lemma result_destroyed:
  assumes "pool_inv s" "submit f args s = Inr (h, s1)" "exec evs2 s1 = Some s2"
    "workers s \<noteq> []" "\<not> stop s" "destroyed s2"
  shows "get s2 h = Some (f args)" and "\<not> abandoned s2 h"
proof -
  from assms(2) have h: "h = next_future s" and nf: "next_future s1 = Suc h"
    and st: "stop s1 = stop s" and ws: "workers s1 = workers s"
    by (auto simp: submit_def Let_def)
  have inv1: "pool_inv s1" using assms(1,2) by (rule pool_inv_submit)
  have "inv_drain (next_future s1 + pre_stop evs2) s2"
    using assms(3) inv1 assms(5) st by (intro pre_stop_drain) simp_all
  then have d: "inv_drain (Suc h) s2" using nf by (auto simp: inv_drain_def)
  have inv2: "pool_inv s2" using assms(3) inv1 by (rule pool_inv_exec)
  have ne: "workers s2 \<noteq> []"
    using length_workers_exec [OF assms(3)] ws assms(4) by auto
  have all: "\<forall>i<length (workers s2). workers s2 ! i = Terminated"
    using inv2 assms(6) by (auto simp: pool_inv_def inv_ctl_def destroyed_def)
  with ne have "Terminated \<in> set (workers s2)" by (cases "workers s2") auto
  with d have m: "Suc h \<le> length (claimed s2)" by (simp add: inv_drain_def)
  have e: "held_by (workers s2) = {}" using all by (auto simp: held_by_def)
  from drained_once(3) [OF inv2 m e] have "get s2 h \<noteq> None" by (simp add: get_def)
  with result_safe [OF assms(1-3)] show "get s2 h = Some (f args)" by simp
  from d have "h < next_future s2" by (simp add: inv_drain_def)
  from pool_inv_counts(5) [OF inv2 this] drained_once(2) [OF inv2 m e, of h]
  have "count_list (map shared_state (tasks s2)) h = 0" by simp
  then have "h \<notin> shared_state ` set (tasks s2)"
    by (metis count_list_0_iff set_map)
  then show "\<not> abandoned s2 h" by (simp add: abandoned_def)
qed

subsection \<open>Callers\<close>





subsection \<open>Some pools\<close>

text \<open>
  The definitions that a run on a given pool unfolds, and the pools with one and with
  two workers.
\<close>

lemmas ops =
  submit_def submit_ref_def notify_one_def notify_all_def workerThread_locked_def packaged_task_call_def
  workerThread_task_def dtor_stop_def dtor_notify_def dtor_join_def destroyed_def

lemmas obs =
  quiescent_def invocations_def dequeues_def get_def

lemma pool1:
  "ThreadPool 1 =
     Inr \<lparr>workers = [Ready], tasks = [], stop = False,
          futures = (\<lambda>h. None), next_future = 0, notifying = 0, dtor = Alive,
          claimed = [], executed = []\<rparr>"
  by (simp add: ThreadPool_eq)

lemma pool2:
  "ThreadPool 2 =
     Inr \<lparr>workers = [Ready, Ready], tasks = [], stop = False,
          futures = (\<lambda>h. None), next_future = 0, notifying = 0, dtor = Alive,
          claimed = [], executed = []\<rparr>"
  by (simp add: ThreadPool_eq eval_nat_numeral)

section \<open>The claims\<close>

subsection \<open>C1: construction with a worker count that is not positive\<close>

text \<open>
  C1, as the code has it. For every worker count \<open>n \<le> 0\<close> the constructor returns
  normally: the loop body is never entered, so the pool is created with no worker
  thread, an empty queue and the stop flag false. No error is raised.
\<close>

theorem ThreadPool_nonpositive:
  "n \<le> 0 \<Longrightarrow>
   ThreadPool n =
     Inr \<lparr>workers = [], tasks = [], stop = False, futures = (\<lambda>h. None), next_future = 0,
          notifying = 0, dtor = Alive, claimed = [], executed = []\<rparr>"
  by (simp add: ThreadPool_eq)

text \<open>
  The worker count \<open>-3\<close>.
\<close>

theorem ThreadPool_nonpositive_witness:
  "(- 3 :: int) \<le> 0 \<and>
   ThreadPool (- 3) =
     Inr \<lparr>workers = [], tasks = [], stop = False, futures = (\<lambda>h. None), next_future = 0,
          notifying = 0, dtor = Alive, claimed = [], executed = []\<rparr>"
  using ThreadPool_nonpositive [of "- 3"] by simp

text \<open>
  C1 as stated fails at the worker count 0: the result of the constructor is a pool,
  not a configuration error.
\<close>

theorem ThreadPool_zero_counterexample:
  "(0 :: int) \<le> 0 \<and> ThreadPool 0 \<noteq> Inl ConfigurationError \<and>
   ThreadPool 0 =
     Inr \<lparr>workers = [], tasks = [], stop = False, futures = (\<lambda>h. None), next_future = 0,
          notifying = 0, dtor = Alive, claimed = [], executed = []\<rparr>"
  by (simp add: ThreadPool_eq)

subsection \<open>C2: the value of the future\<close>

text \<open>
  C2, as the code has it. Let \<open>h\<close> be the handle that \<^verbatim>\<open>submit(f, args...)\<close> returns in a
  reachable state. In every later state a result that \<^verbatim>\<open>get()\<close> on \<open>h\<close> produces is the
  outcome of \<open>f\<close> applied to \<open>args\<close>. If the pool has at least one worker and the stop
  flag was not set at the submission, \<^verbatim>\<open>get()\<close> does produce it: the future holds that
  outcome once the pool has come to rest, which it does from every later state by
  actions of its own, and it holds it when the destructor has returned, so that the
  shared state is never abandoned.
\<close>

theorem submit_get:
  assumes "ThreadPool n = Inr p" "exec evs1 p = Some s" "submit f args s = Inr (h, s1)"
    "exec (evs2 :: ('a, 'e, 'v) event list) s1 = Some s2"
  shows "(\<forall>r. get s2 h = Some r \<longrightarrow> r = f args) \<and>
         (0 < n \<and> \<not> stop s \<and> quiescent s2 \<longrightarrow> get s2 h = Some (f args)) \<and>
         (0 < n \<and> \<not> stop s \<and> destroyed s2 \<longrightarrow>
            get s2 h = Some (f args) \<and> \<not> abandoned s2 h) \<and>
         (0 < n \<and> \<not> stop s \<longrightarrow>
            (\<exists>(evs3 :: ('a, 'e, 'v) event list) s3.
               list_all internal evs3 \<and> exec evs3 s2 = Some s3 \<and> get s3 h = Some (f args)))"
proof -
  have inv: "pool_inv s" using assms(1,2) by (rule pool_inv_reachable)
  have ne: "workers s \<noteq> []" if "0 < n" using assms(1,2) that by (rule workers_nonempty)
  have "\<forall>r. get s2 h = Some r \<longrightarrow> r = f args"
    using result_safe [OF inv assms(3,4)] by auto
  with result_ready [OF inv assms(3,4) ne] result_destroyed [OF inv assms(3,4) ne]
    result_arrives [OF inv assms(3,4) ne]
  show ?thesis by blast
qed

text \<open>
  Two workers. A sum is submitted for 1 and 2 and claimed by the worker 0, a product
  is submitted for 3 and 4 and claimed by the worker 1, both are invoked, and the
  destructor runs to its end. The second future yields 12.
\<close>

theorem submit_get_witness:
  "\<exists>p s s1 s2.
     ThreadPool 2 = Inr p \<and>
     exec [Submit (\<lambda>(a, b). Inr (a + b)) (1, 2), NotifyOne None, Check 0] p = Some s \<and>
     submit (\<lambda>(a, b). Inr (a * b) :: string + nat) (3, 4) s = Inr (1, s1) \<and>
     exec [NotifyOne None, Check 1, Invoke 0, Invoke 1, DtorStop, DtorNotifyAll, Check 0,
           Check 1, DtorJoin, DtorJoin :: (nat \<times> nat, string, nat) event] s1 = Some s2 \<and>
     (0 :: int) < 2 \<and> \<not> stop s \<and> quiescent s2 \<and> destroyed s2 \<and>
     get s2 1 = Some (Inr 12) \<and> \<not> abandoned s2 1"
proof -
  have "\<exists>p s s1 s2.
     ThreadPool 2 = Inr p \<and>
     exec [Submit (\<lambda>(a, b). Inr (a + b)) (1, 2), NotifyOne None, Check 0] p = Some s \<and>
     submit (\<lambda>(a, b). Inr (a * b) :: string + nat) (3, 4) s = Inr (1, s1) \<and>
     exec [NotifyOne None, Check 1, Invoke 0, Invoke 1, DtorStop, DtorNotifyAll, Check 0,
           Check 1, DtorJoin, DtorJoin :: (nat \<times> nat, string, nat) event] s1 = Some s2 \<and>
     \<not> stop s \<and> quiescent s2 \<and> destroyed s2"
    by (simp add: pool2 ops quiescent_def)
  then obtain p s s1 s2 where h:
    "ThreadPool 2 = Inr p"
    "exec [Submit (\<lambda>(a, b). Inr (a + b)) (1, 2), NotifyOne None, Check 0] p = Some s"
    "submit (\<lambda>(a, b). Inr (a * b) :: string + nat) (3, 4) s = Inr (1, s1)"
    "exec [NotifyOne None, Check 1, Invoke 0, Invoke 1, DtorStop, DtorNotifyAll, Check 0,
           Check 1, DtorJoin, DtorJoin :: (nat \<times> nat, string, nat) event] s1 = Some s2"
    "\<not> stop s" "quiescent s2" "destroyed s2"
    by blast
  from submit_get [OF h(1-4)]
  have "(0 :: int) < 2 \<and> \<not> stop s \<and> destroyed s2 \<longrightarrow>
      get s2 1 = Some (case (3 :: nat, 4 :: nat) of (a, b) \<Rightarrow> Inr (a * b)) \<and> \<not> abandoned s2 1"
    by blast
  with h(5,7) have "get s2 1 = Some (Inr 12) \<and> \<not> abandoned s2 1" by simp
  moreover have "(0 :: int) < 2" by simp
  ultimately show ?thesis using h by blast
qed

text \<open>
  C2 as stated fails where the task is never invoked. One worker: the destructor sets
  the flag, the worker finds the queue empty and returns, and another thread submits a
  task. The call returns the handle 0, and in no later state does the future hold a
  result; when the destructor has returned the task is still in the queue and its
  shared state is abandoned. No worker (a count the constructor accepts): the task is
  submitted while the stop flag is clear, and in no later state does the future hold a
  result.
\<close>

theorem unserved_task_never_ready:
  "(\<exists>p s s1 s2.
      ThreadPool 1 = Inr p \<and>
      exec [DtorStop, Check 0 :: (nat, string, nat) event] p = Some s \<and>
      submit (\<lambda>x. Inr (x + 1) :: string + nat) 10 s = Inr (0, s1) \<and>
      (\<forall>(evs :: (nat, string, nat) event list) s'. exec evs s1 = Some s' \<longrightarrow> get s' 0 = None) \<and>
      exec [NotifyOne None, DtorNotifyAll, DtorJoin :: (nat, string, nat) event] s1 = Some s2 \<and>
      quiescent s2 \<and> destroyed s2 \<and> get s2 0 = None \<and> abandoned s2 0) \<and>
   (\<exists>p s1 s2.
      ThreadPool 0 = Inr p \<and> \<not> stop p \<and>
      submit (\<lambda>x. Inr (x + 1) :: string + nat) 10 p = Inr (0, s1) \<and>
      (\<forall>(evs :: (nat, string, nat) event list) s'. exec evs s1 = Some s' \<longrightarrow> get s' 0 = None) \<and>
      exec [NotifyOne None :: (nat, string, nat) event] s1 = Some s2 \<and>
      quiescent s2 \<and> get s2 0 = None)"
proof -
  have a: "\<exists>p s s1 s2.
      ThreadPool 1 = Inr p \<and>
      exec [DtorStop, Check 0 :: (nat, string, nat) event] p = Some s \<and>
      submit (\<lambda>x. Inr (x + 1) :: string + nat) 10 s = Inr (0, s1) \<and>
      list_all (\<lambda>w. w = Terminated) (workers s1) \<and> futures s1 0 = None \<and>
      exec [NotifyOne None, DtorNotifyAll, DtorJoin :: (nat, string, nat) event] s1 = Some s2 \<and>
      quiescent s2 \<and> destroyed s2 \<and> get s2 0 = None \<and> abandoned s2 0"
    by (simp add: pool1 ops obs abandoned_def)
  have b: "\<exists>p s1 s2.
      ThreadPool 0 = Inr p \<and> \<not> stop p \<and>
      submit (\<lambda>x. Inr (x + 1) :: string + nat) 10 p = Inr (0, s1) \<and>
      list_all (\<lambda>w. w = Terminated) (workers s1) \<and> futures s1 0 = None \<and>
      exec [NotifyOne None :: (nat, string, nat) event] s1 = Some s2 \<and>
      quiescent s2 \<and> get s2 0 = None"
    by (simp add: ThreadPool_eq ops obs)
  have never: "get s' 0 = None"
    if "list_all (\<lambda>w. w = Terminated) (workers s1)" "futures s1 0 = None"
      "exec evs s1 = Some s'"
    for s1 s' :: "(unit, string, nat) pool" and evs :: "(nat, string, nat) event list"
    using gone_exec [OF that(3,1)] that(2) by (simp add: get_def)
  from a obtain p s s1 s2 where a':
      "ThreadPool 1 = Inr p"
      "exec [DtorStop, Check 0 :: (nat, string, nat) event] p = Some s"
      "submit (\<lambda>x. Inr (x + 1) :: string + nat) 10 s = Inr (0, s1)"
      "list_all (\<lambda>w. w = Terminated) (workers s1)" "futures s1 0 = None"
      "exec [NotifyOne None, DtorNotifyAll, DtorJoin :: (nat, string, nat) event] s1 = Some s2"
      "quiescent s2" "destroyed s2" "get s2 0 = None" "abandoned s2 0"
    by blast
  from b obtain q t1 t2 where b':
      "ThreadPool 0 = Inr q" "\<not> stop q"
      "submit (\<lambda>x. Inr (x + 1) :: string + nat) 10 q = Inr (0, t1)"
      "list_all (\<lambda>w. w = Terminated) (workers t1)" "futures t1 0 = None"
      "exec [NotifyOne None :: (nat, string, nat) event] t1 = Some t2"
      "quiescent t2" "get t2 0 = None"
    by blast
  have "\<forall>(evs :: (nat, string, nat) event list) s'. exec evs s1 = Some s' \<longrightarrow> get s' 0 = None"
    using never [OF a'(4,5)] by blast
  moreover have "\<forall>(evs :: (nat, string, nat) event list) s'. exec evs t1 = Some s' \<longrightarrow> get s' 0 = None"
    using never [OF b'(4,5)] by blast
  ultimately show ?thesis using a' b' by blast
qed

subsection \<open>C3: every task exactly once\<close>

text \<open>
  C3, as the code has it, for the task with the shared state \<open>h\<close> in any reachable state
  of any run \<open>evs\<close>. The task was invoked at most once and dequeued at most once, never
  invoked without having been dequeued (by the same worker), and while it is not
  dequeued it is in the queue exactly once. In a pool with at least one worker a task
  submitted before the stop flag was set has been dequeued exactly once and invoked
  exactly once when the pool has come to rest. The pool does come to rest: some run of
  internal actions leads to a quiescent state, no run of internal actions is longer
  than \<open>remaining s\<close>, and a state that is not quiescent has an internal action to take.
  (Nothing is promised for the invocation of a task submitted after the stop flag was
  set.)
\<close>

theorem task_runs_once:
  assumes "ThreadPool n = Inr p" "exec evs p = Some s"
  shows "invocations s h \<le> 1 \<and> dequeues s h \<le> 1 \<and> invocations s h \<le> dequeues s h \<and>
         set (executed s) \<subseteq> set (claimed s) \<and>
         (h < next_future s \<longrightarrow>
            count_list (map shared_state (tasks s)) h + dequeues s h = 1) \<and>
         (0 < n \<and> quiescent s \<and> h < pre_stop evs \<longrightarrow>
            invocations s h = 1 \<and> dequeues s h = 1) \<and>
         (\<exists>(evs' :: ('a, 'e, 'v) event list) s'.
            list_all internal evs' \<and> exec evs' s = Some s' \<and> quiescent s') \<and>
         (\<forall>(evs' :: ('a, 'e, 'v) event list) s'.
            list_all internal evs' \<and> exec evs' s = Some s' \<longrightarrow> length evs' \<le> remaining s) \<and>
         (\<not> quiescent s \<longrightarrow> (\<exists>ev :: ('a, 'e, 'v) event. internal ev \<and> step ev s \<noteq> None))"
proof -
  have inv: "pool_inv s" using assms by (rule pool_inv_reachable)
  have once: "invocations s h = 1 \<and> dequeues s h = 1"
    if "0 < n" "quiescent s" "h < pre_stop evs"
  proof -
    have ne: "workers s \<noteq> []" using assms that(1) by (rule workers_nonempty)
    have "pre_stop evs \<le> length (claimed s)"
      using inv reachable_drain [OF assms] ne that(2) by (rule quiescent_drained)
    from drained_once(1,2) [OF inv this quiescent_held [OF that(2)] that(3)]
    show ?thesis by simp
  qed
  have "\<forall>(evs' :: ('a, 'e, 'v) event list) s'.
      list_all internal evs' \<and> exec evs' s = Some s' \<longrightarrow> length evs' \<le> remaining s"
    using remaining_exec by fastforce
  moreover have "\<not> quiescent s \<longrightarrow> (\<exists>ev :: ('a, 'e, 'v) event. internal ev \<and> step ev s \<noteq> None)"
    using busy_step [where mem = "()"] by blast
  ultimately show ?thesis using pool_inv_counts [OF inv] once settles [of s] by blast
qed

text \<open>
  Two workers and two tasks; the worker 1 invokes the second task before the worker 0
  invokes the first, and both workers end blocked in the wait.
\<close>

theorem task_runs_once_witness:
  "\<exists>p s.
     ThreadPool 2 = Inr p \<and>
     exec [Submit (\<lambda>x. Inr (x + 1)) 10, Submit (\<lambda>x. Inr (x + 1)) 20, NotifyOne None,
           NotifyOne None, Check 0, Check 1, Invoke 1, Invoke 0, Check 0, Check 1
           :: (nat, string, nat) event] p = Some s \<and>
     (0 :: int) < 2 \<and> quiescent s \<and>
     1 < pre_stop [Submit (\<lambda>x. Inr (x + 1)) 10, Submit (\<lambda>x. Inr (x + 1)) 20, NotifyOne None,
           NotifyOne None, Check 0, Check 1, Invoke 1, Invoke 0, Check 0, Check 1
           :: (nat, string, nat) event] \<and>
     invocations s 1 = 1 \<and> dequeues s 1 = 1"
proof -
  let ?evs = "[Submit (\<lambda>x. Inr (x + 1)) 10, Submit (\<lambda>x. Inr (x + 1)) 20, NotifyOne None,
           NotifyOne None, Check 0, Check 1, Invoke 1, Invoke 0, Check 0, Check 1
           :: (nat, string, nat) event]"
  have "\<exists>p s. ThreadPool 2 = Inr p \<and> exec ?evs p = Some s \<and> quiescent s"
    by (simp add: pool2 ops obs)
  then obtain p s where h: "ThreadPool 2 = Inr p" "exec ?evs p = Some s" "quiescent s"
    by blast
  have pre: "1 < pre_stop ?evs" by simp
  from task_runs_once [OF h(1,2), of 1]
  have "(0 :: int) < 2 \<and> quiescent s \<and> 1 < pre_stop ?evs \<longrightarrow>
      invocations s 1 = 1 \<and> dequeues s 1 = 1"
    by blast
  with h(3) pre have "invocations s 1 = 1 \<and> dequeues s 1 = 1" by simp
  with h pre show ?thesis by simp
qed

text \<open>
  C3 as stated fails for a task submitted after the stop flag is set: the destructor
  sets the flag, the only worker finds the queue empty and returns, another thread
  submits a task, and the destructor joins the worker and returns. The pool has a
  worker, the task was accepted, and it is never dequeued or invoked.
\<close>

theorem late_task_never_runs:
  "\<exists>p s.
     ThreadPool 1 = Inr p \<and>
     exec [DtorStop, Check 0, Submit (\<lambda>x. Inr (x + 1)) 10, NotifyOne None, DtorNotifyAll,
           DtorJoin :: (nat, string, nat) event] p = Some s \<and>
     workers s = [Terminated] \<and> destroyed s \<and> quiescent s \<and> next_future s = 1 \<and>
     map shared_state (tasks s) = [0] \<and> invocations s 0 = 0 \<and> dequeues s 0 = 0 \<and>
     get s 0 = None"
  by (simp add: pool1 ops obs)

subsection \<open>C4: destruction waits for the tasks\<close>

text \<open>
  C4, as the code has it. In every reachable state: a worker returns only from its
  locked block, with the stop flag set and the queue empty, and not while it holds a
  task; a worker that holds a task can invoke it, which makes the future ready; when
  the destructor has returned every worker has returned; in a pool with at least one
  worker every task submitted before the stop flag was set has then been invoked
  exactly once and its future is ready; and a stopped pool at rest is a destroyed one
  (the destructor is never left blocked in a join), which a stopped pool reaches by
  actions of its own.
\<close>

theorem destruction_waits:
  assumes "ThreadPool n = Inr p" "exec evs p = Some s"
  shows "(\<forall>(ev :: ('a, 'e, 'v) event) s' i.
            step ev s = Some s' \<and> i < length (workers s) \<and> workers s' ! i = Terminated \<and>
            workers s ! i \<noteq> Terminated \<longrightarrow>
            ev = Check i \<and> stop s \<and> tasks s = [] \<and> \<not> is_Running (workers s ! i)) \<and>
         (\<forall>i t. i < length (workers s) \<and> workers s ! i = Running t \<longrightarrow>
            (\<exists>s'. step (Invoke i :: ('a, 'e, 'v) event) s = Some s' \<and>
                  get s' (shared_state t) = Some (bound t ()) \<and> workers s' ! i = Ready)) \<and>
         (destroyed s \<longrightarrow> (\<forall>i<length (workers s). workers s ! i = Terminated)) \<and>
         (0 < n \<and> destroyed s \<and> h < pre_stop evs \<longrightarrow>
            get s h \<noteq> None \<and> invocations s h = 1) \<and>
         (stop s \<and> quiescent s \<longrightarrow> destroyed s) \<and>
         (stop s \<longrightarrow>
            (\<exists>(evs' :: ('a, 'e, 'v) event list) s'.
               list_all internal evs' \<and> exec evs' s = Some s' \<and> destroyed s'))"
proof -
  have inv: "pool_inv s" using assms by (rule pool_inv_reachable)
  have a: "\<forall>(ev :: ('a, 'e, 'v) event) s' i.
            step ev s = Some s' \<and> i < length (workers s) \<and> workers s' ! i = Terminated \<and>
            workers s ! i \<noteq> Terminated \<longrightarrow>
            ev = Check i \<and> stop s \<and> tasks s = [] \<and> \<not> is_Running (workers s ! i)"
    using exit_only_when_drained [where mem = "()"] by blast
  have b: "\<forall>i t. i < length (workers s) \<and> workers s ! i = Running t \<longrightarrow>
            (\<exists>s'. step (Invoke i :: ('a, 'e, 'v) event) s = Some s' \<and>
                  get s' (shared_state t) = Some (bound t ()) \<and> workers s' ! i = Ready)"
    using invoke_held [OF inv, where mem = "()"] by blast
  have c: "\<forall>i<length (workers s). workers s ! i = Terminated" if "destroyed s"
    using inv that by (auto simp: pool_inv_def inv_ctl_def destroyed_def)
  have d: "get s h \<noteq> None \<and> invocations s h = 1"
    if "0 < n" "destroyed s" "h < pre_stop evs"
  proof -
    have ne: "workers s \<noteq> []" using assms that(1) by (rule workers_nonempty)
    with c [OF that(2)] have "Terminated \<in> set (workers s)" by (cases "workers s") auto
    with reachable_drain [OF assms] have m: "pre_stop evs \<le> length (claimed s)"
      by (simp add: inv_drain_def)
    have "held_by (workers s) = {}" using c [OF that(2)] by (auto simp: held_by_def)
    from drained_once [OF inv m this that(3)] show ?thesis by (simp add: get_def)
  qed
  have e: "destroyed s" if "stop s" "quiescent s"
    using inv that by (rule quiescent_stopped)
  have f: "\<exists>(evs' :: ('a, 'e, 'v) event list) s'.
               list_all internal evs' \<and> exec evs' s = Some s' \<and> destroyed s'" if "stop s"
    using inv that by (rule destruction_completes)
  from a b c d e f show ?thesis by blast
qed

text \<open>
  Two workers; the task is claimed by the worker 0 before the destructor starts and
  invoked after the worker 1 has returned; the destructor joins both.
\<close>

theorem destruction_waits_witness:
  "\<exists>p s.
     ThreadPool 2 = Inr p \<and>
     exec [Submit (\<lambda>x. Inr (x + 1)) 10, Check 0, DtorStop, Check 1, NotifyOne None,
           DtorNotifyAll, Invoke 0, Check 0, DtorJoin, DtorJoin
           :: (nat, string, nat) event] p = Some s \<and>
     (0 :: int) < 2 \<and> destroyed s \<and>
     0 < pre_stop [Submit (\<lambda>x. Inr (x + 1)) 10, Check 0, DtorStop, Check 1, NotifyOne None,
           DtorNotifyAll, Invoke 0, Check 0, DtorJoin, DtorJoin
           :: (nat, string, nat) event] \<and>
     get s 0 \<noteq> None \<and> invocations s 0 = 1"
proof -
  let ?evs = "[Submit (\<lambda>x. Inr (x + 1)) 10, Check 0, DtorStop, Check 1, NotifyOne None,
           DtorNotifyAll, Invoke 0, Check 0, DtorJoin, DtorJoin
           :: (nat, string, nat) event]"
  have "\<exists>p s. ThreadPool 2 = Inr p \<and> exec ?evs p = Some s \<and> destroyed s"
    by (simp add: pool2 ops)
  then obtain p s where h: "ThreadPool 2 = Inr p" "exec ?evs p = Some s" "destroyed s"
    by blast
  have pre: "0 < pre_stop ?evs" by simp
  from destruction_waits [OF h(1,2), of 0]
  have "(0 :: int) < 2 \<and> destroyed s \<and> 0 < pre_stop ?evs \<longrightarrow>
      get s 0 \<noteq> None \<and> invocations s 0 = 1"
    by blast
  with h(3) pre have "get s 0 \<noteq> None \<and> invocations s 0 = 1" by simp
  with h pre show ?thesis by simp
qed

text \<open>
  C4 as stated fails: with two workers, the task is held by the worker 0 and not yet
  invoked when the destructor sets the flag; the idle worker 1 finds the flag set and
  the queue empty and returns, before the task has finished.
\<close>

theorem idle_worker_exits_early:
  "\<exists>p s.
     ThreadPool 2 = Inr p \<and>
     exec [Submit (\<lambda>x. Inr (x + 1)) 10, Check 0, DtorStop, Check 1
           :: (nat, string, nat) event] p = Some s \<and>
     0 < pre_stop [Submit (\<lambda>x. Inr (x + 1)) 10, Check 0, DtorStop, Check 1
           :: (nat, string, nat) event] \<and>
     workers s = [Running (Task 0 (\<lambda>u. Inr 11)), Terminated] \<and>
     get s 0 = None \<and> invocations s 0 = 0"
  by (simp add: pool2 ops obs)

subsection \<open>C5: the stop flag\<close>




subsection \<open>C6: a task that throws\<close>

text \<open>
  C6. Let \<open>h\<close> be the handle returned by \<^verbatim>\<open>submit(f, args...)\<close> in a reachable state, where
  \<open>f\<close> applied to \<open>args\<close> throws \<open>e\<close>. In every later state \<^verbatim>\<open>get()\<close> on \<open>h\<close> either still
  blocks or rethrows \<open>e\<close>, and no worker has crashed. When a worker holds the task, its
  invocation stores \<open>e\<close> in the shared state and leaves the worker at the top of its
  loop, not crashed, every other worker and the queue untouched; the worker then enters
  its locked block again and takes the front of the queue if there is one; and every
  further call of \<^verbatim>\<open>submit\<close> succeeds.
\<close>

theorem task_failure_captured:
  assumes "ThreadPool n = Inr p" "exec evs1 p = Some s" "submit f args s = Inr (h, s1)"
    "f args = Inl e" "exec evs2 s1 = Some s2"
  shows "(get s2 h = None \<or> get s2 h = Some (Inl e)) \<and>
         Crashed \<notin> set (workers s2) \<and>
         (\<forall>i t. i < length (workers s2) \<and> workers s2 ! i = Running t \<and> shared_state t = h \<longrightarrow>
            (\<exists>s3. step (Invoke i :: ('a, 'e, 'v) event) s2 = Some s3 \<and>
                  get s3 h = Some (Inl e) \<and> workers s3 ! i = Ready \<and>
                  Crashed \<notin> set (workers s3) \<and> tasks s3 = tasks s2 \<and>
                  (\<forall>j<length (workers s2). j \<noteq> i \<longrightarrow> workers s3 ! j = workers s2 ! j) \<and>
                  (\<exists>s4. step (Check i :: ('a, 'e, 'v) event) s3 = Some s4 \<and>
                     (tasks s3 \<noteq> [] \<longrightarrow>
                        workers s4 ! i = Running (hd (tasks s3)) \<and> tasks s4 = tl (tasks s3))) \<and>
                  (\<forall>(g :: 'a \<Rightarrow> 'e + 'v) b. \<exists>h' s4. submit g b s3 = Inr (h', s4) \<and>
                     tasks s4 = tasks s3 @ [Task h' (\<lambda>u. g b)])))"
proof -
  have inv: "pool_inv s" using assms(1,2) by (rule pool_inv_reachable)
  have b: "inv_bound h (\<lambda>m. f args) s2"
    using assms(5) inv_bound_submit [OF inv assms(3)] by (rule inv_bound_exec)
  then have safe: "get s2 h = None \<or> get s2 h = Some (Inl e)"
    using assms(4) inv_bound_value(1) [of h "f args" s2] by simp
  have inv2: "pool_inv s2"
    using assms(5) pool_inv_submit [OF inv assms(3)] by (rule pool_inv_exec)
  then have nc: "Crashed \<notin> set (workers s2)" by (simp add: pool_inv_def)
  have run: "\<exists>s3. step (Invoke i :: ('a, 'e, 'v) event) s2 = Some s3 \<and>
                  get s3 h = Some (Inl e) \<and> workers s3 ! i = Ready \<and>
                  Crashed \<notin> set (workers s3) \<and> tasks s3 = tasks s2 \<and>
                  (\<forall>j<length (workers s2). j \<noteq> i \<longrightarrow> workers s3 ! j = workers s2 ! j) \<and>
                  (\<exists>s4. step (Check i :: ('a, 'e, 'v) event) s3 = Some s4 \<and>
                     (tasks s3 \<noteq> [] \<longrightarrow>
                        workers s4 ! i = Running (hd (tasks s3)) \<and> tasks s4 = tl (tasks s3))) \<and>
                  (\<forall>(g :: 'a \<Rightarrow> 'e + 'v) b. \<exists>h' s4. submit g b s3 = Inr (h', s4) \<and>
                     tasks s4 = tasks s3 @ [Task h' (\<lambda>u. g b)])"
    if i: "i < length (workers s2)" "workers s2 ! i = Running t" "shared_state t = h" for i t
  proof -
    from b i have r: "bound t () = Inl e" using assms(4) by (auto simp: inv_bound_def)
    from invoke_held [OF inv2 i(1,2), where mem = "()"] obtain s3
      where s3: "step (Invoke i :: ('a, 'e, 'v) event) s2 = Some s3"
        "get s3 (shared_state t) = Some (bound t ())" "workers s3 ! i = Ready"
        "tasks s3 = tasks s2"
        "\<forall>j<length (workers s2). j \<noteq> i \<longrightarrow> workers s3 ! j = workers s2 ! j"
      by blast
    have inv3: "pool_inv s3" using inv2 s3(1) by (rule pool_inv_step)
    then have nc3: "Crashed \<notin> set (workers s3)" by (simp add: pool_inv_def)
    have len: "i < length (workers s3)" using length_workers_step [OF s3(1)] i(1) by simp
    from check_ready [OF len, where mem = "()"] s3(3)
    have ck: "\<exists>s4. step (Check i :: ('a, 'e, 'v) event) s3 = Some s4 \<and>
        (tasks s3 \<noteq> [] \<longrightarrow> workers s4 ! i = Running (hd (tasks s3)) \<and> tasks s4 = tl (tasks s3))"
      by simp
    have sub: "\<forall>(g :: 'a \<Rightarrow> 'e + 'v) b. \<exists>h' s4. submit g b s3 = Inr (h', s4) \<and>
        tasks s4 = tasks s3 @ [Task h' (\<lambda>u. g b)]"
      by (simp add: submit_def Let_def)
    from s3 r i(3) nc3 ck sub show ?thesis by auto
  qed
  from safe nc run show ?thesis by blast
qed

text \<open>
  One worker: a task that returns, a task that throws, a task that returns. The
  worker invokes the throwing task, the future holds the exception, the worker invokes
  the third task, and a fourth is accepted.
\<close>

theorem task_failure_captured_witness:
  "\<exists>p s s1 s2 s3 s4 s5.
     ThreadPool 1 = Inr p \<and>
     exec [Submit (\<lambda>x. Inr (x + 1)) 10, NotifyOne None, Check 0, Invoke 0
           :: (nat, string, nat) event] p = Some s \<and>
     submit (\<lambda>x :: nat. Inl ''division by zero'' :: string + nat) 20 s = Inr (1, s1) \<and>
     exec [NotifyOne None, Submit (\<lambda>x. Inr (x + 1)) 30, Check 0
           :: (nat, string, nat) event] s1 = Some s2 \<and>
     workers s2 ! 0 = Running (Task 1 (\<lambda>u. Inl ''division by zero'')) \<and>
     step (Invoke 0 :: (nat, string, nat) event) s2 = Some s3 \<and>
     get s3 1 = Some (Inl ''division by zero'') \<and> workers s3 ! 0 = Ready \<and>
     Crashed \<notin> set (workers s3) \<and>
     exec [Check 0, Invoke 0 :: (nat, string, nat) event] s3 = Some s4 \<and>
     get s4 2 = Some (Inr 31) \<and>
     submit (\<lambda>x. Inr (x + 1) :: string + nat) 40 s4 = Inr (3, s5)"
proof -
  let ?e1 = "[Submit (\<lambda>x. Inr (x + 1)) 10, NotifyOne None, Check 0, Invoke 0
           :: (nat, string, nat) event]"
  let ?e2 = "[NotifyOne None, Submit (\<lambda>x. Inr (x + 1)) 30, Check 0
           :: (nat, string, nat) event]"
  have "\<exists>p s s1 s2 s3 s4 s5. ThreadPool 1 = Inr p \<and> exec ?e1 p = Some s \<and>
     submit (\<lambda>x :: nat. Inl ''division by zero'' :: string + nat) 20 s = Inr (1, s1) \<and>
     exec ?e2 s1 = Some s2 \<and>
     workers s2 ! 0 = Running (Task 1 (\<lambda>u. Inl ''division by zero'')) \<and>
     step (Invoke 0 :: (nat, string, nat) event) s2 = Some s3 \<and>
     exec [Check 0, Invoke 0 :: (nat, string, nat) event] s3 = Some s4 \<and>
     get s4 2 = Some (Inr 31) \<and>
     submit (\<lambda>x. Inr (x + 1) :: string + nat) 40 s4 = Inr (3, s5)"
    by (simp add: pool1 ops obs)
  then obtain p s s1 s2 s3 s4 s5 where h: "ThreadPool 1 = Inr p" "exec ?e1 p = Some s"
     "submit (\<lambda>x :: nat. Inl ''division by zero'' :: string + nat) 20 s = Inr (1, s1)"
     "exec ?e2 s1 = Some s2"
     "workers s2 ! 0 = Running (Task 1 (\<lambda>u. Inl ''division by zero''))"
     "step (Invoke 0 :: (nat, string, nat) event) s2 = Some s3"
     "exec [Check 0, Invoke 0 :: (nat, string, nat) event] s3 = Some s4"
     "get s4 2 = Some (Inr 31)"
     "submit (\<lambda>x. Inr (x + 1) :: string + nat) 40 s4 = Inr (3, s5)"
    by blast
  have len: "0 < length (workers s2)"
    using workers_nonempty [OF h(1,2)] length_workers_exec [OF h(4)] h(3)
    by (auto simp: submit_def Let_def)
  note t = task_failure_captured [OF h(1,2,3) _ h(4), of "''division by zero''"]
  from t have "\<forall>i t. i < length (workers s2) \<and> workers s2 ! i = Running t \<and> shared_state t = 1 \<longrightarrow>
            (\<exists>s3. step (Invoke i :: (nat, string, nat) event) s2 = Some s3 \<and>
                  get s3 1 = Some (Inl ''division by zero'') \<and> workers s3 ! i = Ready \<and>
                  Crashed \<notin> set (workers s3))"
    by simp blast
  with len h(5) have "\<exists>s3. step (Invoke 0 :: (nat, string, nat) event) s2 = Some s3 \<and>
                  get s3 1 = Some (Inl ''division by zero'') \<and> workers s3 ! 0 = Ready \<and>
                  Crashed \<notin> set (workers s3)"
    by force
  with h(6) have "get s3 1 = Some (Inl ''division by zero'') \<and> workers s3 ! 0 = Ready \<and>
                  Crashed \<notin> set (workers s3)"
    by simp
  with h show ?thesis by blast
qed

subsection \<open>C7: the locked block of the worker\<close>

text \<open>
  C7. When the worker \<open>i\<close> runs its locked block in a reachable state: with the stop
  flag clear and the queue empty it blocks and touches nothing; with the stop flag set
  and the queue empty it returns; otherwise it moves the front task out of the queue,
  which keeps the rest in order. No other worker changes. The tasks dequeued so far
  are the first tasks submitted, in the order of submission, and the queue holds the
  others in that order. A worker that has returned stays so, and a blocked worker does
  nothing until it is unblocked.
\<close>

theorem dequeue_or_wait:
  assumes "ThreadPool n = Inr p" "exec evs p = Some s"
    "step (Check i :: ('a, 'e, 'v) event) s = Some s'"
  shows "(\<not> stop s \<and> tasks s = [] \<longrightarrow>
            workers s' ! i = Waiting \<and> tasks s' = [] \<and> claimed s' = claimed s) \<and>
         (stop s \<and> tasks s = [] \<longrightarrow>
            workers s' ! i = Terminated \<and> tasks s' = [] \<and> claimed s' = claimed s) \<and>
         (tasks s \<noteq> [] \<longrightarrow>
            workers s' ! i = Running (hd (tasks s)) \<and> tasks s' = tl (tasks s) \<and>
            claimed s' = claimed s @ [(i, shared_state (hd (tasks s)))]) \<and>
         (\<forall>j<length (workers s). j \<noteq> i \<longrightarrow> workers s' ! j = workers s ! j) \<and>
         map snd (claimed s') = [0..<length (claimed s')] \<and>
         map shared_state (tasks s') = [length (claimed s')..<next_future s'] \<and>
         (\<forall>(ev :: ('a, 'e, 'v) event) s'' j.
            step ev s = Some s'' \<and> j < length (workers s) \<and> workers s ! j = Terminated \<longrightarrow>
            workers s'' ! j = Terminated) \<and>
         (\<forall>(ev :: ('a, 'e, 'v) event) s'' j.
            step ev s = Some s'' \<and> j < length (workers s) \<and> workers s ! j = Waiting \<longrightarrow>
            workers s'' ! j = Waiting \<or> workers s'' ! j = Woken)"
proof -
  have "pool_inv s" using assms(1,2) by (rule pool_inv_reachable)
  then have "pool_inv s'" using assms(3) by (rule pool_inv_step)
  then have f: "inv_fifo s'" by (simp add: pool_inv_def)
  have t: "\<forall>(ev :: ('a, 'e, 'v) event) s'' j.
            step ev s = Some s'' \<and> j < length (workers s) \<and> workers s ! j = Terminated \<longrightarrow>
            workers s'' ! j = Terminated"
    using terminal [where mem = "()"] by blast
  have b: "\<forall>(ev :: ('a, 'e, 'v) event) s'' j.
            step ev s = Some s'' \<and> j < length (workers s) \<and> workers s ! j = Waiting \<longrightarrow>
            workers s'' ! j = Waiting \<or> workers s'' ! j = Woken"
    using blocked [where mem = "()"] by blast
  from check_cases [OF assms(3)] claimed_prefix [OF f] queue_suffix [OF f] t b
  show ?thesis by blast
qed

text \<open>
  Two tasks in the queue: the worker 1 takes the first, then the worker 0 takes the
  second.
\<close>

theorem dequeue_or_wait_witness:
  "\<exists>p s s'.
     ThreadPool 2 = Inr p \<and>
     exec [Submit (\<lambda>x. Inr (x + 1)) 10, Submit (\<lambda>x. Inr (x + 2)) 20, Check 1
           :: (nat, string, nat) event] p = Some s \<and>
     step (Check 0 :: (nat, string, nat) event) s = Some s' \<and>
     tasks s \<noteq> [] \<and> workers s' ! 0 = Running (hd (tasks s)) \<and> tasks s' = tl (tasks s) \<and>
     claimed s' = claimed s @ [(0, shared_state (hd (tasks s)))] \<and>
     map snd (claimed s') = [0..<length (claimed s')] \<and>
     map shared_state (tasks s') = [length (claimed s')..<next_future s'] \<and>
     claimed s' = [(1, 0), (0, 1)]"
proof -
  let ?evs = "[Submit (\<lambda>x. Inr (x + 1)) 10, Submit (\<lambda>x. Inr (x + 2)) 20, Check 1
           :: (nat, string, nat) event]"
  have "\<exists>p s s'. ThreadPool 2 = Inr p \<and> exec ?evs p = Some s \<and>
     step (Check 0 :: (nat, string, nat) event) s = Some s' \<and> tasks s \<noteq> [] \<and>
     claimed s' = [(1, 0), (0, 1)]"
    by (simp add: pool2 ops)
  then obtain p s s' where h: "ThreadPool 2 = Inr p" "exec ?evs p = Some s"
     "step (Check 0 :: (nat, string, nat) event) s = Some s'" "tasks s \<noteq> []"
     "claimed s' = [(1, 0), (0, 1)]"
    by blast
  note t = dequeue_or_wait [OF h(1,2,3)]
  from t h(4) have "workers s' ! 0 = Running (hd (tasks s)) \<and> tasks s' = tl (tasks s) \<and>
     claimed s' = claimed s @ [(0, shared_state (hd (tasks s)))]" by blast
  moreover from t have "map snd (claimed s') = [0..<length (claimed s')] \<and>
     map shared_state (tasks s') = [length (claimed s')..<next_future s']" by blast
  ultimately show ?thesis using h by blast
qed

subsection \<open>C8: binding at submission\<close>




subsection \<open>C9: notifications\<close>

text \<open>
  C9, in every reachable state. A call of \<^verbatim>\<open>submit\<close> appends its task and owes exactly
  one \<^verbatim>\<open>notify_one\<close>, which can always be performed; a \<^verbatim>\<open>notify_one\<close> unblocks exactly one
  blocked worker if there is one and changes no worker otherwise. The destructor sets
  the flag and then performs \<^verbatim>\<open>notify_all\<close>, after which no worker is blocked: the blocked
  ones are unblocked and the others are unchanged. An unblocked worker leaves that
  state only through its locked block, where it returns only if the flag is set and
  the queue empty, takes a task only if there is one (the front), and blocks again
  exactly if the predicate is false; so a spurious wake-up with the predicate false
  gives back the same state. No wake-up is lost: while the flag is clear, a non-empty
  queue without an owed \<^verbatim>\<open>notify_one\<close> has a worker that is not blocked, and once the
  destructor is joining no worker is blocked.
\<close>

theorem wake_ups:
  assumes "ThreadPool n = Inr p" "exec evs p = Some s"
  shows "(\<forall>(f :: 'a \<Rightarrow> 'e + 'v) args s'. step (Submit f args) s = Some s' \<longrightarrow>
            notifying s' = Suc (notifying s) \<and> workers s' = workers s \<and>
            tasks s' = tasks s @ [Task (next_future s) (\<lambda>u. f args)]) \<and>
         (\<forall>k s'. step (NotifyOne k :: ('a, 'e, 'v) event) s = Some s' \<longrightarrow>
            0 < notifying s \<and> notifying s' = notifying s - 1 \<and>
            tasks s' = tasks s \<and> stop s' = stop s \<and>
            (if Waiting \<in> set (workers s)
             then \<exists>i<length (workers s).
                    workers s ! i = Waiting \<and> workers s' = (workers s)[i := Woken]
             else workers s' = workers s)) \<and>
         (0 < notifying s \<longrightarrow> (\<exists>k s'. step (NotifyOne k :: ('a, 'e, 'v) event) s = Some s')) \<and>
         (\<forall>s'. step (DtorStop :: ('a, 'e, 'v) event) s = Some s' \<longrightarrow>
            stop s' \<and> workers s' = workers s \<and> tasks s' = tasks s \<and>
            (\<exists>s''. step (DtorNotifyAll :: ('a, 'e, 'v) event) s' = Some s'')) \<and>
         (\<forall>s'. step (DtorNotifyAll :: ('a, 'e, 'v) event) s = Some s' \<longrightarrow>
            stop s \<and> Waiting \<notin> set (workers s') \<and> length (workers s') = length (workers s) \<and>
            (\<forall>i<length (workers s).
               workers s' ! i = (if workers s ! i = Waiting then Woken else workers s ! i))) \<and>
         (\<forall>(ev :: ('a, 'e, 'v) event) s' i.
            step ev s = Some s' \<and> i < length (workers s) \<and> workers s ! i = Woken \<and>
            workers s' ! i \<noteq> Woken \<longrightarrow> ev = Check i) \<and>
         (\<forall>i s'. step (Check i :: ('a, 'e, 'v) event) s = Some s' \<longrightarrow>
            (workers s' ! i = Terminated \<longrightarrow> stop s \<and> tasks s = []) \<and>
            (is_Running (workers s' ! i) \<longrightarrow>
               tasks s \<noteq> [] \<and> workers s' ! i = Running (hd (tasks s))) \<and>
            (workers s' ! i = Waiting \<longleftrightarrow> \<not> stop s \<and> tasks s = [])) \<and>
         (\<forall>i. i < length (workers s) \<and> workers s ! i = Waiting \<and> \<not> stop s \<and> tasks s = [] \<longrightarrow>
            exec [Wake i, Check i :: ('a, 'e, 'v) event] s = Some s) \<and>
         (workers s \<noteq> [] \<and> \<not> stop s \<and> tasks s \<noteq> [] \<and> notifying s = 0 \<longrightarrow>
            (\<exists>i<length (workers s).
               workers s ! i = Ready \<or> workers s ! i = Woken \<or> is_Running (workers s ! i))) \<and>
         (\<forall>k. dtor s = Joining k \<longrightarrow> Waiting \<notin> set (workers s))"
proof -
  have inv: "pool_inv s" using assms by (rule pool_inv_reachable)
  have a: "\<forall>(f :: 'a \<Rightarrow> 'e + 'v) args s'. step (Submit f args) s = Some s' \<longrightarrow>
            notifying s' = Suc (notifying s) \<and> workers s' = workers s \<and>
            tasks s' = tasks s @ [Task (next_future s) (\<lambda>u. f args)]"
    by (intro allI impI) (rule submit_notifies [where mem = "()"])
  have b: "\<forall>k s'. step (NotifyOne k :: ('a, 'e, 'v) event) s = Some s' \<longrightarrow>
            0 < notifying s \<and> notifying s' = notifying s - 1 \<and>
            tasks s' = tasks s \<and> stop s' = stop s \<and>
            (if Waiting \<in> set (workers s)
             then \<exists>i<length (workers s).
                    workers s ! i = Waiting \<and> workers s' = (workers s)[i := Woken]
             else workers s' = workers s)"
    using notify_one_wakes [where mem = "()"] by blast
  have c: "0 < notifying s \<longrightarrow> (\<exists>k s'. step (NotifyOne k :: ('a, 'e, 'v) event) s = Some s')"
    using notify_one_enabled [where mem = "()"] by blast
  have d: "\<forall>s'. step (DtorStop :: ('a, 'e, 'v) event) s = Some s' \<longrightarrow>
            stop s' \<and> workers s' = workers s \<and> tasks s' = tasks s \<and>
            (\<exists>s''. step (DtorNotifyAll :: ('a, 'e, 'v) event) s' = Some s'')"
    using dtor_stop_then_notify [where mem = "()"] by blast
  have "stop s" if "step (DtorNotifyAll :: ('a, 'e, 'v) event) s = Some s'" for s'
    using inv that by (auto simp: pool_inv_def inv_ctl_def split: if_splits)
  then have e: "\<forall>s'. step (DtorNotifyAll :: ('a, 'e, 'v) event) s = Some s' \<longrightarrow>
            stop s \<and> Waiting \<notin> set (workers s') \<and> length (workers s') = length (workers s) \<and>
            (\<forall>i<length (workers s).
               workers s' ! i = (if workers s ! i = Waiting then Woken else workers s ! i))"
    using notify_all_wakes [where mem = "()"] by blast
  have f: "\<forall>(ev :: ('a, 'e, 'v) event) s' i.
            step ev s = Some s' \<and> i < length (workers s) \<and> workers s ! i = Woken \<and>
            workers s' ! i \<noteq> Woken \<longrightarrow> ev = Check i"
    using woken_rechecks [where mem = "()"] by blast
  have g: "\<forall>i s'. step (Check i :: ('a, 'e, 'v) event) s = Some s' \<longrightarrow>
            (workers s' ! i = Terminated \<longrightarrow> stop s \<and> tasks s = []) \<and>
            (is_Running (workers s' ! i) \<longrightarrow>
               tasks s \<noteq> [] \<and> workers s' ! i = Running (hd (tasks s))) \<and>
            (workers s' ! i = Waiting \<longleftrightarrow> \<not> stop s \<and> tasks s = [])"
    using check_outcome [where mem = "()"] by blast
  have h: "\<forall>i. i < length (workers s) \<and> workers s ! i = Waiting \<and> \<not> stop s \<and> tasks s = [] \<longrightarrow>
            exec [Wake i, Check i :: ('a, 'e, 'v) event] s = Some s"
    using spurious_wake by blast
  have i: "workers s \<noteq> [] \<and> \<not> stop s \<and> tasks s \<noteq> [] \<and> notifying s = 0 \<longrightarrow>
            (\<exists>i<length (workers s).
               workers s ! i = Ready \<or> workers s ! i = Woken \<or> is_Running (workers s ! i))"
    using not_lost [OF inv] by blast
  have j: "\<forall>k. dtor s = Joining k \<longrightarrow> Waiting \<notin> set (workers s)"
    using inv by (auto simp: pool_inv_def inv_ctl_def)
  show ?thesis
    apply (intro conjI)
    using a apply blast
    using b apply blast
    using c apply blast
    using d apply blast
    using e apply blast
    using f apply blast
    using g apply blast
    using h apply blast
    using i apply blast
    using j apply blast
    done
qed

text \<open>
  Two blocked workers: after a submission \<^verbatim>\<open>notify_one\<close> unblocks the worker 1 alone; a
  spurious wake-up of the worker 0 on the empty queue changes nothing; after the
  destructor has set the flag \<^verbatim>\<open>notify_all\<close> unblocks both.
\<close>

theorem wake_ups_witness:
  "\<exists>p a a' b c c'.
     ThreadPool 2 = Inr p \<and>
     exec [Check 0, Check 1, Submit (\<lambda>x. Inr (x + 1)) 10 :: (nat, string, nat) event] p = Some a \<and>
     Waiting \<in> set (workers a) \<and>
     step (NotifyOne (Some 1) :: (nat, string, nat) event) a = Some a' \<and>
     notifying a = 1 \<and> notifying a' = notifying a - 1 \<and> workers a' = [Waiting, Woken] \<and>
     (\<exists>i<length (workers a). workers a ! i = Waiting \<and> workers a' = (workers a)[i := Woken]) \<and>
     exec [Check 0, Check 1 :: (nat, string, nat) event] p = Some b \<and>
     0 < length (workers b) \<and> workers b ! 0 = Waiting \<and> \<not> stop b \<and> tasks b = [] \<and>
     exec [Wake 0, Check 0 :: (nat, string, nat) event] b = Some b \<and>
     exec [Check 0, Check 1, DtorStop :: (nat, string, nat) event] p = Some c \<and>
     step (DtorNotifyAll :: (nat, string, nat) event) c = Some c' \<and>
     stop c \<and> Waiting \<notin> set (workers c') \<and> workers c' = [Woken, Woken]"
proof -
  let ?ea = "[Check 0, Check 1, Submit (\<lambda>x. Inr (x + 1)) 10 :: (nat, string, nat) event]"
  let ?eb = "[Check 0, Check 1 :: (nat, string, nat) event]"
  let ?ec = "[Check 0, Check 1, DtorStop :: (nat, string, nat) event]"
  have "\<exists>p a a' b c c'. ThreadPool 2 = Inr p \<and> exec ?ea p = Some a \<and>
     Waiting \<in> set (workers a) \<and>
     step (NotifyOne (Some 1) :: (nat, string, nat) event) a = Some a' \<and>
     notifying a = 1 \<and> workers a' = [Waiting, Woken] \<and>
     exec ?eb p = Some b \<and>
     0 < length (workers b) \<and> workers b ! 0 = Waiting \<and> \<not> stop b \<and> tasks b = [] \<and>
     exec ?ec p = Some c \<and>
     step (DtorNotifyAll :: (nat, string, nat) event) c = Some c' \<and>
     workers c' = [Woken, Woken]"
    by (simp add: pool2 ops)
  then obtain p a a' b c c' where h: "ThreadPool 2 = Inr p" "exec ?ea p = Some a"
     "Waiting \<in> set (workers a)"
     "step (NotifyOne (Some 1) :: (nat, string, nat) event) a = Some a'"
     "notifying a = 1" "workers a' = [Waiting, Woken]"
     "exec ?eb p = Some b"
     "0 < length (workers b)" "workers b ! 0 = Waiting" "\<not> stop b" "tasks b = []"
     "exec ?ec p = Some c"
     "step (DtorNotifyAll :: (nat, string, nat) event) c = Some c'"
     "workers c' = [Woken, Woken]"
    by blast
  from wake_ups [OF h(1,2)] h(4)
  have "notifying a' = notifying a - 1 \<and>
      (if Waiting \<in> set (workers a)
       then \<exists>i<length (workers a). workers a ! i = Waiting \<and> workers a' = (workers a)[i := Woken]
       else workers a' = workers a)"
    by blast
  with h(3) have ta: "notifying a' = notifying a - 1 \<and>
      (\<exists>i<length (workers a). workers a ! i = Waiting \<and> workers a' = (workers a)[i := Woken])"
    by simp
  from wake_ups [OF h(1,7)] h(8-11)
  have tb: "exec [Wake 0, Check 0 :: (nat, string, nat) event] b = Some b" by blast
  from wake_ups [OF h(1,12)] h(13)
  have tc: "stop c \<and> Waiting \<notin> set (workers c')" by blast
  from h ta tb tc show ?thesis by blast
qed

subsection \<open>C10: submission in any state\<close>

text \<open>
  C10. In every reachable state, whatever the stop flag, \<^verbatim>\<open>submit\<close> returns a handle
  and no error: the task is appended to the queue, one \<^verbatim>\<open>notify_one\<close> is owed, the handle
  names a fresh shared state that is not ready and belongs to no other task, and as
  long as the destructor has not returned this is an action of the pool.
\<close>

theorem submit_never_rejects:
  assumes "ThreadPool n = Inr p" "exec evs p = Some s"
  shows "\<exists>s'. submit f args s = Inr (next_future s, s') \<and>
           tasks s' = tasks s @ [Task (next_future s) (\<lambda>u. f args)] \<and>
           next_future s' = Suc (next_future s) \<and> notifying s' = Suc (notifying s) \<and>
           workers s' = workers s \<and> stop s' = stop s \<and>
           get s' (next_future s) = None \<and>
           next_future s \<notin> shared_state ` set (tasks s) \<and>
           next_future s \<notin> snd ` set (claimed s) \<and>
           (\<not> destroyed s \<longrightarrow> step (Submit f args) s = Some s')"
proof -
  have inv: "pool_inv s" using assms by (rule pool_inv_reachable)
  then have f: "inv_fifo s" and hd: "inv_held s" by (simp_all add: pool_inv_def)
  have q: "next_future s \<notin> shared_state ` set (tasks s)"
    using inv_fifo_fresh(1) [OF f] by auto
  have c: "next_future s \<notin> snd ` set (claimed s)"
    using inv_fifo_fresh(2) [OF f] by auto
  with hd have "next_future s \<notin> dom (futures s)" by (auto simp: inv_held_def)
  then have "futures s (next_future s) = None" by auto
  with q c show ?thesis by (simp add: submit_def Let_def get_def)
qed

text \<open>
  A pool whose destructor has set the flag and notified: the second task is accepted.
\<close>

theorem submit_never_rejects_witness:
  "\<exists>p s s'.
     ThreadPool 1 = Inr p \<and>
     exec [Submit (\<lambda>x. Inr (x + 1)) 10, DtorStop, DtorNotifyAll :: (nat, string, nat) event] p
       = Some s \<and>
     stop s \<and> \<not> destroyed s \<and>
     submit (\<lambda>x. Inr (x + 2) :: string + nat) 20 s = Inr (1, s') \<and>
     next_future s = 1 \<and> tasks s' = tasks s @ [Task 1 (\<lambda>u. Inr 22)] \<and>
     get s' 1 = None \<and>
     step (Submit (\<lambda>x. Inr (x + 2)) 20 :: (nat, string, nat) event) s = Some s'"
proof -
  let ?evs = "[Submit (\<lambda>x. Inr (x + 1)) 10, DtorStop, DtorNotifyAll :: (nat, string, nat) event]"
  have "\<exists>p s. ThreadPool 1 = Inr p \<and> exec ?evs p = Some s \<and> stop s \<and> \<not> destroyed s \<and>
      next_future s = 1"
    by (simp add: pool1 ops)
  then obtain p s where h: "ThreadPool 1 = Inr p" "exec ?evs p = Some s" "stop s"
    "\<not> destroyed s" "next_future s = 1"
    by blast
  from submit_never_rejects [OF h(1,2), of "\<lambda>x. Inr (x + 2)" 20] h(4,5)
  obtain s' where "submit (\<lambda>x. Inr (x + 2) :: string + nat) 20 s = Inr (1, s')"
    "tasks s' = tasks s @ [Task 1 (\<lambda>u. Inr 22)]" "get s' 1 = None"
    "step (Submit (\<lambda>x. Inr (x + 2)) 20 :: (nat, string, nat) event) s = Some s'"
    by auto
  with h show ?thesis by blast
qed

end
